theory Spec2Isabelle
  imports Main
begin

section \<open>The ZIP-code geographic file generator (app.py)\<close>

text \<open>
  A shallow embedding of \<^verbatim>\<open>src/app.py\<close>: the function
  \<^verbatim>\<open>create_full_geographic_data\<close> (cleaning, aggregation per ZIP code, left merge with
  the ZCTA boundaries) and the button handler of the Streamlit script (exports, sampling of
  groups, dissolve). The pandas, geopandas and numpy operations the script calls are modelled
  by their documented behaviour (pandas 2.x, geopandas 1.x, numpy's legacy generator), each
  next to the source line that calls it.

  Modelling decisions:
  \<^item> a DataFrame is an ordered list of labelled, typed columns: an \<^verbatim>\<open>int64\<close> column
    (\<open>Numeric\<close>) holds integers and no missing value; a \<^verbatim>\<open>float64\<close> column holds
    whole numbers or the missing value, which is what \<^verbatim>\<open>read_csv\<close> makes of a column of
    integers with blank cells; an object column holds Python objects (missing, an integer,
    a whole float or a string). Numbers are exact: the wrap-around of 64-bit sums, floats
    with a fractional part and floats so large that Python prints them with an exponent
    are outside the model, and an integer and the float of the same value are different
    objects;
  \<^item> a GeoDataFrame is a DataFrame of attribute columns together with its geometry column
    (labelled \<^verbatim>\<open>geometry\<close>, as \<^verbatim>\<open>geopandas.read_file\<close> names it);
  \<^item> the labels of the uploaded table are distinct, as \<^verbatim>\<open>read_csv\<close> makes them; where
    the script itself builds a frame with a repeated label (line 61 when the grouping column
    is the ZIP column), a lookup by label reads the first such column, and the merge of
    line 99 raises as pandas does;
  \<^item> every exception and every \<^verbatim>\<open>st.stop()\<close> is a value of type \<open>error\<close>;
  \<^item> the download of the TIGER archive, the random generator, the union of geometries and
    the serialisers are parameters.
\<close>

subsection \<open>Values, columns, frames\<close>

datatype pyobj = PNull | PInt int | PFloat int | PStr string

datatype series = Numeric "int list" | Float64 "int option list" | Object "pyobj list"

type_synonym frame = "(string \<times> series) list"

record 'g geoframe =
  attrs :: frame
  geometry :: "'g option list"

datatype error =
    SchemaStop
  | ProviderStop
  | KeyError string
  | TypeError
  | ValueError

datatype aggfunc = First | Sum

subsection \<open>Strings: \<^verbatim>\<open>str(int)\<close> and \<^verbatim>\<open>str.zfill\<close>\<close>

definition digit_char :: "nat \<Rightarrow> char" where
  "digit_char d = ''0123456789'' ! d"

fun str_nat :: "nat \<Rightarrow> string" where
  "str_nat n = (if n < 10 then [digit_char n] else str_nat (n div 10) @ [digit_char (n mod 10)])"

declare str_nat.simps [simp del]

definition str_int :: "int \<Rightarrow> string" where
  "str_int i = (if i < 0 then CHR ''-'' # str_nat (nat (- i)) else str_nat (nat i))"

text \<open>
  \<^verbatim>\<open>s.zfill(width)\<close>, which \<^verbatim>\<open>Series.str.zfill\<close> applies to every element: a string of
  at least \<open>width\<close> characters is returned as it is; a shorter one is padded with zeros on
  the left, after a leading sign if there is one.
\<close>

definition zfill :: "nat \<Rightarrow> string \<Rightarrow> string" where
  "zfill width s =
     (if width \<le> length s then s
      else (case s of
              [] \<Rightarrow> replicate width CHR ''0''
            | c # rest \<Rightarrow>
                if c = CHR ''+'' \<or> c = CHR ''-''
                then c # replicate (width - length s) CHR ''0'' @ rest
                else replicate (width - length s) CHR ''0'' @ s))"

text \<open>\<^verbatim>\<open>str(x)\<close> of one element, as \<^verbatim>\<open>astype(str)\<close> applies it.\<close>

fun str_obj :: "pyobj \<Rightarrow> string" where
  "str_obj PNull = ''nan''"
| "str_obj (PInt i) = str_int i"
| "str_obj (PFloat i) = str_int i @ ''.0''"
| "str_obj (PStr s) = s"

text \<open>The elements of a column as Python objects.\<close>

fun float_obj :: "int option \<Rightarrow> pyobj" where
  "float_obj None = PNull"
| "float_obj (Some i) = PFloat i"

fun cells :: "series \<Rightarrow> pyobj list" where
  "cells (Numeric xs) = map PInt xs"
| "cells (Float64 xs) = map float_obj xs"
| "cells (Object xs) = xs"

definition astype_str :: "series \<Rightarrow> series" where
  "astype_str s = Object (map (\<lambda>v. PStr (str_obj v)) (cells s))"

text \<open>Line 46: \<^verbatim>\<open>df_clean[zipcode_column].astype(str).str.zfill(5)\<close>, on one element and on
  a column.\<close>

definition normalize_zip :: "pyobj \<Rightarrow> string" where
  "normalize_zip v = zfill 5 (str_obj v)"

definition normalize_series :: "series \<Rightarrow> series" where
  "normalize_series s = Object (map (\<lambda>v. PStr (normalize_zip v)) (cells s))"

subsection \<open>Lists: masks, first occurrences, sorting, dictionaries\<close>

text \<open>Boolean indexing \<^verbatim>\<open>xs[mask]\<close>.\<close>

definition take_mask :: "bool list \<Rightarrow> 'a list \<Rightarrow> 'a list" where
  "take_mask m xs = map snd (filter fst (zip m xs))"

text \<open>\<^verbatim>\<open>Series.unique()\<close>: the distinct values in order of first appearance; the missing
  value counts as one value.\<close>

fun unique_from :: "'a list \<Rightarrow> 'a list \<Rightarrow> 'a list" where
  "unique_from seen [] = []"
| "unique_from seen (x # xs) =
     (if x \<in> set seen then unique_from seen xs else x # unique_from (x # seen) xs)"

definition unique :: "'a list \<Rightarrow> 'a list" where
  "unique xs = unique_from [] xs"

text \<open>\<^verbatim>\<open>duplicated(keep='first')\<close>: marks every row equal to an earlier one.\<close>

fun duplicated_from :: "'a list \<Rightarrow> 'a list \<Rightarrow> bool list" where
  "duplicated_from seen [] = []"
| "duplicated_from seen (x # xs) = (x \<in> set seen) # duplicated_from (x # seen) xs"

fun insort_by :: "('a \<Rightarrow> 'a \<Rightarrow> bool) \<Rightarrow> 'a \<Rightarrow> 'a list \<Rightarrow> 'a list" where
  "insort_by le x [] = [x]"
| "insort_by le x (y # ys) = (if le x y then x # y # ys else y # insort_by le x ys)"

fun sort_by :: "('a \<Rightarrow> 'a \<Rightarrow> bool) \<Rightarrow> 'a list \<Rightarrow> 'a list" where
  "sort_by le [] = []"
| "sort_by le (x # xs) = insort_by le x (sort_by le xs)"

text \<open>Python compares strings by code point, integers by value; where a key column mixes
  both, pandas sorts the numbers before the strings.\<close>

fun str_le :: "string \<Rightarrow> string \<Rightarrow> bool" where
  "str_le [] ys = True"
| "str_le (x # xs) [] = False"
| "str_le (x # xs) (y # ys) =
     (if x = y then str_le xs ys else (of_char x :: nat) < of_char y)"

fun pyobj_le :: "pyobj \<Rightarrow> pyobj \<Rightarrow> bool" where
  "pyobj_le (PInt a) (PInt b) = (a \<le> b)"
| "pyobj_le (PInt a) (PFloat b) = (a \<le> b)"
| "pyobj_le (PFloat a) (PInt b) = (a \<le> b)"
| "pyobj_le (PFloat a) (PFloat b) = (a \<le> b)"
| "pyobj_le (PStr a) (PStr b) = str_le a b"
| "pyobj_le (PInt a) (PStr b) = True"
| "pyobj_le (PFloat a) (PStr b) = True"
| "pyobj_le (PStr a) (PInt b) = False"
| "pyobj_le (PStr a) (PFloat b) = False"
| "pyobj_le PNull b = True"
| "pyobj_le a PNull = False"

text \<open>\<^verbatim>\<open>d[k] = v\<close> on an insertion-ordered dictionary, and \<^verbatim>\<open>df[c] = s\<close> on a frame:
  an existing entry keeps its place, a new one goes to the end.\<close>

fun dict_set :: "'k \<Rightarrow> 'v \<Rightarrow> ('k \<times> 'v) list \<Rightarrow> ('k \<times> 'v) list" where
  "dict_set k v [] = [(k, v)]"
| "dict_set k v ((k', v') # d) =
     (if k' = k then (k, v) # d else (k', v') # dict_set k v d)"

text \<open>A list of results is a result: the first exception wins.\<close>

fun collect :: "(error + 'a) list \<Rightarrow> error + 'a list" where
  "collect [] = Inr []"
| "collect (r # rs) =
     (case r of
        Inl e \<Rightarrow> Inl e
      | Inr x \<Rightarrow> (case collect rs of Inl e \<Rightarrow> Inl e | Inr xs \<Rightarrow> Inr (x # xs)))"

subsection \<open>Frame operations\<close>

definition labels :: "frame \<Rightarrow> string list" where
  "labels df = map fst df"

definition nrows :: "frame \<Rightarrow> nat" where
  "nrows df = (case df of [] \<Rightarrow> 0 | (c, s) # rest \<Rightarrow> length (cells s))"

fun series_mask :: "bool list \<Rightarrow> series \<Rightarrow> series" where
  "series_mask m (Numeric xs) = Numeric (take_mask m xs)"
| "series_mask m (Float64 xs) = Float64 (take_mask m xs)"
| "series_mask m (Object xs) = Object (take_mask m xs)"

definition frame_mask :: "bool list \<Rightarrow> frame \<Rightarrow> frame" where
  "frame_mask m df = map (\<lambda>(c, s). (c, series_mask m s)) df"

definition geoframe_mask :: "bool list \<Rightarrow> 'g geoframe \<Rightarrow> 'g geoframe" where
  "geoframe_mask m gdf =
     \<lparr>attrs = frame_mask m (attrs gdf), geometry = take_mask m (geometry gdf)\<rparr>"

definition notna :: "series \<Rightarrow> bool list" where
  "notna s = map (\<lambda>v. v \<noteq> PNull) (cells s)"

definition isin :: "series \<Rightarrow> pyobj list \<Rightarrow> bool list" where
  "isin s vals = map (\<lambda>v. v \<in> set vals) (cells s)"

definition rename_column :: "string \<Rightarrow> string \<Rightarrow> frame \<Rightarrow> frame" where
  "rename_column old new df = map (\<lambda>(c, s). (if c = old then new else c, s)) df"

text \<open>\<^verbatim>\<open>df[[c1, c2]]\<close>: the named columns, in the order asked for.\<close>

definition select_columns :: "frame \<Rightarrow> string list \<Rightarrow> error + frame" where
  "select_columns df cs =
     collect (map (\<lambda>c. case map_of df c of None \<Rightarrow> Inl (KeyError c) | Some s \<Rightarrow> Inr (c, s)) cs)"

definition rows_of :: "frame \<Rightarrow> pyobj list list" where
  "rows_of df = transpose (map (\<lambda>(c, s). cells s) df)"

definition drop_duplicates :: "frame \<Rightarrow> frame" where
  "drop_duplicates df = frame_mask (map Not (duplicated_from [] (rows_of df))) df"

definition is_numeric_dtype :: "series \<Rightarrow> bool" where
  "is_numeric_dtype s =
     (case s of Numeric xs \<Rightarrow> True | Float64 xs \<Rightarrow> True | Object xs \<Rightarrow> False)"

subsection \<open>Group-by and the reductions \<^verbatim>\<open>'first'\<close> and \<^verbatim>\<open>'sum'\<close>\<close>

text \<open>
  \<^verbatim>\<open>groupby(by)\<close> with its defaults \<^verbatim>\<open>sort=True, dropna=True\<close>: one group per distinct
  key that is not missing, the groups in sorted key order, the rows of a group in their
  original order.
\<close>

definition group_keys :: "pyobj list \<Rightarrow> pyobj list" where
  "group_keys ks = sort_by pyobj_le (unique (filter (\<lambda>k. k \<noteq> PNull) ks))"

definition group_of :: "pyobj \<Rightarrow> pyobj list \<Rightarrow> 'a list \<Rightarrow> 'a list" where
  "group_of k ks vs = map snd (filter (\<lambda>p. fst p = k) (zip ks vs))"

fun valid :: "'a option list \<Rightarrow> 'a list" where
  "valid [] = []"
| "valid (None # xs) = valid xs"
| "valid (Some x # xs) = x # valid xs"

text \<open>A column of integers with missing values is \<^verbatim>\<open>float64\<close>; without any it is
  \<^verbatim>\<open>int64\<close>. This is the dtype pandas gives to the result where an \<^verbatim>\<open>int64\<close> column
  is reindexed.\<close>

definition upcast :: "int option list \<Rightarrow> series" where
  "upcast ys = (if None \<in> set ys then Float64 ys else Numeric (valid ys))"

text \<open>\<^verbatim>\<open>GroupBy.first\<close> skips missing entries: the first entry of the group that is not
  missing, and the missing value when there is none.\<close>

definition first_numeric :: "int option list \<Rightarrow> int option" where
  "first_numeric xs = (case valid xs of [] \<Rightarrow> None | x # rest \<Rightarrow> Some x)"

definition first_object :: "pyobj list \<Rightarrow> pyobj" where
  "first_object xs = (case filter (\<lambda>v. v \<noteq> PNull) xs of [] \<Rightarrow> PNull | v # rest \<Rightarrow> v)"

text \<open>\<^verbatim>\<open>GroupBy.sum\<close> skips missing entries too and is 0 on a group without entries. On
  an object column the entries are added with Python's \<^verbatim>\<open>+\<close>, from the first on: strings
  are concatenated, a string and a number raise \<^verbatim>\<open>TypeError\<close>.\<close>

definition sum_numeric :: "int option list \<Rightarrow> int option" where
  "sum_numeric xs = Some (sum_list (valid xs))"

fun py_add :: "pyobj \<Rightarrow> pyobj \<Rightarrow> error + pyobj" where
  "py_add (PInt a) (PInt b) = Inr (PInt (a + b))"
| "py_add (PInt a) (PFloat b) = Inr (PFloat (a + b))"
| "py_add (PFloat a) (PInt b) = Inr (PFloat (a + b))"
| "py_add (PFloat a) (PFloat b) = Inr (PFloat (a + b))"
| "py_add (PStr a) (PStr b) = Inr (PStr (a @ b))"
| "py_add a b = Inl TypeError"

fun sum_from :: "pyobj \<Rightarrow> pyobj list \<Rightarrow> error + pyobj" where
  "sum_from t [] = Inr t"
| "sum_from t (v # vs) = (case py_add t v of Inl e \<Rightarrow> Inl e | Inr t' \<Rightarrow> sum_from t' vs)"

definition sum_object :: "pyobj list \<Rightarrow> error + pyobj" where
  "sum_object xs =
     (case filter (\<lambda>v. v \<noteq> PNull) xs of [] \<Rightarrow> Inr (PInt 0) | v # vs \<Rightarrow> sum_from v vs)"

fun agg_series :: "aggfunc \<Rightarrow> pyobj list \<Rightarrow> pyobj list \<Rightarrow> series \<Rightarrow> error + series" where
  "agg_series First ks keys (Numeric xs) =
     Inr (upcast (map (\<lambda>k. first_numeric (map Some (group_of k ks xs))) keys))"
| "agg_series Sum ks keys (Numeric xs) =
     Inr (Numeric (map (\<lambda>k. sum_list (group_of k ks xs)) keys))"
| "agg_series First ks keys (Float64 xs) =
     Inr (Float64 (map (\<lambda>k. first_numeric (group_of k ks xs)) keys))"
| "agg_series Sum ks keys (Float64 xs) =
     Inr (Float64 (map (\<lambda>k. sum_numeric (group_of k ks xs)) keys))"
| "agg_series First ks keys (Object xs) =
     Inr (Object (map (\<lambda>k. first_object (group_of k ks xs)) keys))"
| "agg_series Sum ks keys (Object xs) =
     (case collect (map (\<lambda>k. sum_object (group_of k ks xs)) keys) of
        Inl e \<Rightarrow> Inl e
      | Inr vs \<Rightarrow> Inr (Object vs))"

text \<open>The group keys as a column of the dtype of the key column.\<close>

fun obj_num :: "pyobj \<Rightarrow> int option" where
  "obj_num (PInt i) = Some i"
| "obj_num (PFloat i) = Some i"
| "obj_num v = None"

fun series_like :: "series \<Rightarrow> pyobj list \<Rightarrow> series" where
  "series_like (Numeric xs) keys = Numeric (valid (map obj_num keys))"
| "series_like (Float64 xs) keys = Float64 (map obj_num keys)"
| "series_like (Object xs) keys = Object keys"

text \<open>\<^verbatim>\<open>df.groupby(by).agg(agg_dict).reset_index()\<close>: one column per dictionary entry, in
  dictionary order, and the keys inserted as the first column; \<^verbatim>\<open>reset_index\<close> raises
  \<^verbatim>\<open>ValueError\<close> when the label of the keys is already a column.\<close>

definition agg_column :: "frame \<Rightarrow> pyobj list \<Rightarrow> pyobj list \<Rightarrow> string \<times> aggfunc \<Rightarrow> error + string \<times> series" where
  "agg_column df ks keys cf =
     (case map_of df (fst cf) of
        None \<Rightarrow> Inl (KeyError (fst cf))
      | Some s \<Rightarrow> (case agg_series (snd cf) ks keys s of
                     Inl e \<Rightarrow> Inl e
                   | Inr r \<Rightarrow> Inr (fst cf, r)))"

definition groupby_agg :: "frame \<Rightarrow> string \<Rightarrow> (string \<times> aggfunc) list \<Rightarrow> error + frame" where
  "groupby_agg df by agg_dict =
     (case map_of df by of
        None \<Rightarrow> Inl (KeyError by)
      | Some bs \<Rightarrow>
          (let ks = cells bs; keys = group_keys ks in
           case collect (map (agg_column df ks keys) agg_dict) of
             Inl e \<Rightarrow> Inl e
           | Inr cols \<Rightarrow>
               if by \<in> set (map fst cols) then Inl ValueError
               else Inr ((by, series_like bs keys) # cols)))"

subsection \<open>\<^verbatim>\<open>create_full_geographic_data\<close>, part 1: data preparation (lines 40 to 61)\<close>

text \<open>
  Lines 40 to 46. Both columns must exist, or the function reports the error and stops the
  script. \<^verbatim>\<open>dropna(subset=[zipcode_column, groupby_column])\<close> keeps the rows where neither
  is missing; the ZIP column is then replaced by its zero-padded string form, which makes it
  an object column.
\<close>

definition dropna_mask :: "series \<Rightarrow> series \<Rightarrow> bool list" where
  "dropna_mask zs gs = map2 (\<and>) (notna zs) (notna gs)"

definition clean :: "frame \<Rightarrow> string \<Rightarrow> string \<Rightarrow> error + frame" where
  "clean df zipcode_column groupby_column =
     (case map_of df zipcode_column of
        None \<Rightarrow> Inl SchemaStop
      | Some zs \<Rightarrow>
          (case map_of df groupby_column of
             None \<Rightarrow> Inl SchemaStop
           | Some gs \<Rightarrow>
               (let keep = dropna_mask zs gs;
                    df_clean = frame_mask keep df
                in Inr (dict_set zipcode_column
                          (normalize_series (series_mask keep zs)) df_clean))))"

text \<open>Lines 49 to 51: the retained columns without the grouping column, and the grouping
  column appended.\<close>

definition columns_to_aggregate :: "string list \<Rightarrow> string \<Rightarrow> string list" where
  "columns_to_aggregate include_columns groupby_column =
     (let cs = filter (\<lambda>col. col \<noteq> groupby_column) include_columns
      in if groupby_column \<notin> set cs then cs @ [groupby_column] else cs)"

text \<open>Line 53: the dictionary comprehension enters \<^verbatim>\<open>'first'\<close> for every column to
  aggregate other than the ZIP column.\<close>

definition first_dict :: "string list \<Rightarrow> string \<Rightarrow> (string \<times> aggfunc) list" where
  "first_dict cols zipcode_column =
     fold (\<lambda>col d. dict_set col First d) (filter (\<lambda>col. col \<noteq> zipcode_column) cols) []"

text \<open>Lines 54 to 56: every column to aggregate whose dtype is numeric is set to
  \<^verbatim>\<open>'sum'\<close>; a column that the frame does not have raises \<^verbatim>\<open>KeyError\<close>.\<close>

fun mark_numeric ::
  "frame \<Rightarrow> string list \<Rightarrow> (string \<times> aggfunc) list \<Rightarrow> error + (string \<times> aggfunc) list" where
  "mark_numeric df_clean [] agg_dict = Inr agg_dict"
| "mark_numeric df_clean (col # cols) agg_dict =
     (case map_of df_clean col of
        None \<Rightarrow> Inl (KeyError col)
      | Some s \<Rightarrow>
          if is_numeric_dtype s then mark_numeric df_clean cols (dict_set col Sum agg_dict)
          else mark_numeric df_clean cols agg_dict)"

text \<open>Lines 40 to 61: the aggregated table \<^verbatim>\<open>zip_data\<close>. \<^verbatim>\<open>include_columns=None\<close> is the
  default of the signature; the comprehension of line 49 iterates over it.\<close>

definition aggregate :: "frame \<Rightarrow> string \<Rightarrow> string \<Rightarrow> string list option \<Rightarrow> error + frame" where
  "aggregate df zipcode_column groupby_column include_columns =
     (case clean df zipcode_column groupby_column of
        Inl e \<Rightarrow> Inl e
      | Inr df_clean \<Rightarrow>
          (case include_columns of
             None \<Rightarrow> Inl TypeError
           | Some inc \<Rightarrow>
               (let cols = columns_to_aggregate inc groupby_column in
                case mark_numeric df_clean cols (first_dict cols zipcode_column) of
                  Inl e \<Rightarrow> Inl e
                | Inr agg_dict \<Rightarrow>
                    if agg_dict \<noteq> [] then groupby_agg df_clean zipcode_column agg_dict
                    else (case select_columns df_clean [zipcode_column, groupby_column] of
                            Inl e \<Rightarrow> Inl e
                          | Inr sel \<Rightarrow> Inr (drop_duplicates sel)))))"

subsection \<open>\<^verbatim>\<open>create_full_geographic_data\<close>, part 2: boundaries and merge (lines 67 to 104)\<close>

text \<open>
  \<^verbatim>\<open>left.merge(right, on=key, how='left')\<close>. Every left row comes out once for each right
  row with its key, in right order, and once with missing right values when there is none.
  The key label must be a column of both sides and unique on each. A label other than the
  key that both sides have gets the suffixes \<^verbatim>\<open>_x\<close> and \<^verbatim>\<open>_y\<close>; the geometry column of
  the right side is its column \<^verbatim>\<open>geometry\<close>. Line 100 then needs a column
  \<^verbatim>\<open>geometry\<close> in the result.
\<close>

definition nmatch :: "pyobj \<Rightarrow> pyobj list \<Rightarrow> nat" where
  "nmatch k rk = max 1 (length (filter (\<lambda>k'. k' = k) rk))"

definition left_rows :: "pyobj list \<Rightarrow> pyobj list \<Rightarrow> 'a list \<Rightarrow> 'a list" where
  "left_rows lk rk vs = concat (map (\<lambda>p. replicate (nmatch (fst p) rk) (snd p)) (zip lk vs))"

definition right_rows :: "pyobj list \<Rightarrow> pyobj list \<Rightarrow> 'a \<Rightarrow> 'a list \<Rightarrow> 'a list" where
  "right_rows lk rk missing ws =
     concat (map (\<lambda>k. case group_of k rk ws of [] \<Rightarrow> [missing] | m # ms \<Rightarrow> m # ms) lk)"

fun left_series :: "pyobj list \<Rightarrow> pyobj list \<Rightarrow> series \<Rightarrow> series" where
  "left_series lk rk (Numeric xs) = Numeric (left_rows lk rk xs)"
| "left_series lk rk (Float64 xs) = Float64 (left_rows lk rk xs)"
| "left_series lk rk (Object xs) = Object (left_rows lk rk xs)"

fun right_series :: "pyobj list \<Rightarrow> pyobj list \<Rightarrow> series \<Rightarrow> series" where
  "right_series lk rk (Numeric xs) = upcast (right_rows lk rk None (map Some xs))"
| "right_series lk rk (Float64 xs) = Float64 (right_rows lk rk None xs)"
| "right_series lk rk (Object xs) = Object (right_rows lk rk PNull xs)"

definition merge_left :: "frame \<Rightarrow> 'g geoframe \<Rightarrow> string \<Rightarrow> error + 'g geoframe" where
  "merge_left left right key =
     (case map_of left key of
        None \<Rightarrow> Inl (KeyError key)
      | Some ls \<Rightarrow>
          (case map_of (attrs right) key of
             None \<Rightarrow> Inl (KeyError key)
           | Some rs \<Rightarrow>
               if count_list (labels left) key \<noteq> 1 \<or> count_list (labels (attrs right)) key \<noteq> 1
               then Inl ValueError
               else if ''geometry'' \<in> set (labels left) then Inl ValueError
               else
                 (let lk = cells ls; rk = cells rs;
                      rest = filter (\<lambda>p. fst p \<noteq> key) (attrs right);
                      lcols = map (\<lambda>p. (if fst p \<noteq> key \<and> fst p \<in> set (labels rest)
                                         then fst p @ ''_x'' else fst p,
                                         left_series lk rk (snd p))) left;
                      rcols = map (\<lambda>p. (if fst p \<in> set (labels left)
                                         then fst p @ ''_y'' else fst p,
                                         right_series lk rk (snd p))) rest
                  in Inr \<lparr>attrs = lcols @ rcols,
                          geometry = right_rows lk rk None (geometry right)\<rparr>)))"

text \<open>
  Lines 67 to 100. The provider is the download of lines 69 to 86: \<open>None\<close> when it raises
  (the function then reports the error and stops the script), the boundary table otherwise.
\<close>

definition boundary_merge :: "frame \<Rightarrow> string \<Rightarrow> 'g geoframe option \<Rightarrow> error + 'g geoframe" where
  "boundary_merge zip_data zipcode_column provider =
     (case map_of zip_data zipcode_column of
        None \<Rightarrow> Inl (KeyError zipcode_column)
      | Some zs \<Rightarrow>
          (let unique_zipcodes = cells zs in
           case provider of
             None \<Rightarrow> Inl ProviderStop
           | Some zcta_gdf \<Rightarrow>
               (let zip_data_merge = rename_column zipcode_column ''ZCTA5CE20'' zip_data in
                case map_of (attrs zcta_gdf) ''ZCTA5CE20'' of
                  None \<Rightarrow> Inl (KeyError ''ZCTA5CE20'')
                | Some rs \<Rightarrow>
                    (let zcta_gdf = zcta_gdf
                           \<lparr>attrs := dict_set ''ZCTA5CE20'' (astype_str rs) (attrs zcta_gdf)\<rparr> in
                     case map_of zip_data_merge ''ZCTA5CE20'' of
                       None \<Rightarrow> Inl (KeyError ''ZCTA5CE20'')
                     | Some ls \<Rightarrow>
                         (let zip_data_merge =
                                dict_set ''ZCTA5CE20'' (astype_str ls) zip_data_merge;
                              zcta_gdf_filtered =
                                geoframe_mask (isin (astype_str rs) unique_zipcodes) zcta_gdf
                          in merge_left zip_data_merge zcta_gdf_filtered ''ZCTA5CE20'')))))"

definition create_full_geographic_data ::
  "frame \<Rightarrow> string \<Rightarrow> string \<Rightarrow> string list option \<Rightarrow> 'g geoframe option \<Rightarrow> error + 'g geoframe" where
  "create_full_geographic_data df zipcode_column groupby_column include_columns provider =
     (case aggregate df zipcode_column groupby_column include_columns of
        Inl e \<Rightarrow> Inl e
      | Inr zip_data \<Rightarrow> boundary_merge zip_data zipcode_column provider)"

subsection \<open>The button handler (lines 161 to 240)\<close>

text \<open>
  \<^verbatim>\<open>np.random.choice(a, size, replace=False)\<close> draws a random permutation of the positions
  of \<open>a\<close> and returns the elements at its first \<open>size\<close> entries. The generator is the
  parameter \<open>permutation\<close>: for \<open>n\<close> it returns a list of the numbers below \<open>n\<close>, each once.
\<close>

definition random_choice :: "(nat \<Rightarrow> nat list) \<Rightarrow> 'a list \<Rightarrow> nat \<Rightarrow> 'a list" where
  "random_choice permutation a k = map (\<lambda>i. a ! i) (take k (permutation (length a)))"

text \<open>Lines 200 to 203.\<close>

definition sampled_groups :: "(nat \<Rightarrow> nat list) \<Rightarrow> pyobj list \<Rightarrow> pyobj list" where
  "sampled_groups permutation unique_groups =
     (if length unique_groups > 5 then random_choice permutation unique_groups 5
      else unique_groups)"

text \<open>
  \<^verbatim>\<open>gdf.dissolve(by=col, aggfunc=f)\<close> followed by \<^verbatim>\<open>reset_index()\<close>: the attribute columns
  other than \<open>by\<close> are grouped by \<open>by\<close> and every one of them is reduced with \<open>f\<close>; the
  geometries of a group are merged by \<open>union_all\<close>, a parameter.
\<close>

definition dissolve ::
  "('g option list \<Rightarrow> 'g option) \<Rightarrow> 'g geoframe \<Rightarrow> string \<Rightarrow> aggfunc \<Rightarrow> error + 'g geoframe" where
  "dissolve union_all gdf by aggfn =
     (case map_of (attrs gdf) by of
        None \<Rightarrow> Inl (KeyError by)
      | Some bs \<Rightarrow>
          (let ks = cells bs; keys = group_keys ks;
               data = filter (\<lambda>p. fst p \<noteq> by) (attrs gdf)
           in case collect (map (\<lambda>p. case agg_series aggfn ks keys (snd p) of
                                       Inl e \<Rightarrow> Inl e
                                     | Inr r \<Rightarrow> Inr (fst p, r)) data) of
                Inl e \<Rightarrow> Inl e
              | Inr cols \<Rightarrow>
                  Inr \<lparr>attrs = (by, series_like bs keys) # cols,
                       geometry = map (\<lambda>k. union_all (group_of k ks (geometry gdf))) keys\<rparr>))"

definition is_empty :: "'g geoframe \<Rightarrow> bool" where
  "is_empty gdf = (geometry gdf = [])"

text \<open>Lines 199 to 212: the visualisation path. \<open>Inr None\<close> is the warning of line 209.\<close>

definition visualize ::
  "('g option list \<Rightarrow> 'g option) \<Rightarrow> (nat \<Rightarrow> nat list) \<Rightarrow> 'g geoframe \<Rightarrow> string
     \<Rightarrow> error + 'g geoframe option" where
  "visualize union_all permutation final_gdf groupby_col =
     (case map_of (attrs final_gdf) groupby_col of
        None \<Rightarrow> Inl (KeyError groupby_col)
      | Some gs \<Rightarrow>
          (let unique_groups = unique (cells gs);
               sampled = sampled_groups permutation unique_groups;
               sampled_gdf = geoframe_mask (isin gs sampled) final_gdf
           in if is_empty sampled_gdf then Inr None
              else (case dissolve union_all sampled_gdf groupby_col Sum of
                      Inl e \<Rightarrow> Inl e
                    | Inr visual_gdf \<Rightarrow> Inr (Some visual_gdf))))"

text \<open>
  Lines 163 to 240. The page shows the three downloads of lines 171 to 174, built by the
  serialisers \<open>to_json\<close>, \<open>to_csv\<close> (on the frame without its geometry column) and
  \<open>create_zip_file\<close>, and then the map. An exception of the visualisation path is caught
  by line 244 after the downloads are on the page.
\<close>

record ('g, 'j, 'c, 's) page =
  downloads :: "('j \<times> 'c \<times> 's) option"
  visual :: "error + 'g geoframe option"

definition generate ::
  "('g geoframe \<Rightarrow> 'j) \<Rightarrow> (frame \<Rightarrow> 'c) \<Rightarrow> ('g geoframe \<Rightarrow> 's)
     \<Rightarrow> ('g option list \<Rightarrow> 'g option) \<Rightarrow> (nat \<Rightarrow> nat list)
     \<Rightarrow> frame \<Rightarrow> string \<Rightarrow> string \<Rightarrow> string list \<Rightarrow> 'g geoframe option
     \<Rightarrow> ('g, 'j, 'c, 's) page" where
  "generate to_json to_csv create_zip_file union_all permutation
            df zip_col groupby_col metric_cols provider =
     (case create_full_geographic_data df zip_col groupby_col (Some metric_cols) provider of
        Inl e \<Rightarrow> \<lparr>downloads = None, visual = Inl e\<rparr>
      | Inr final_gdf \<Rightarrow>
          if is_empty final_gdf then \<lparr>downloads = None, visual = Inr None\<rparr>
          else
            (let geojson_string = to_json final_gdf;
                 csv_string = to_csv (attrs final_gdf);
                 shapefile_zip = create_zip_file final_gdf
             in \<lparr>downloads = Some (geojson_string, csv_string, shapefile_zip),
                 visual = visualize union_all permutation final_gdf groupby_col\<rparr>))"

subsection \<open>The spec's description of the aggregated codes\<close>

text \<open>
  Following the spec's words, record by record: the normalised postal codes of the records
  whose postal code and grouping value are both present. It is compared below with what
  the code of lines 44 to 61 computes column by column.
\<close>

definition spec_surviving_codes :: "series \<Rightarrow> series \<Rightarrow> string list" where
  "spec_surviving_codes zs gs =
     map (\<lambda>r. normalize_zip (fst r))
       (filter (\<lambda>r. fst r \<noteq> PNull \<and> snd r \<noteq> PNull) (zip (cells zs) (cells gs)))"

text \<open>
  Following the spec's words: the reduction of a retained column. A numeric column becomes
  the sum of the values of each group, any other column the first value of each group; the
  code skips missing values in both. \<open>ks\<close> are the normalised codes of the cleaned records,
  \<open>keys\<close> the codes of the aggregated rows.
\<close>

definition spec_reduce :: "pyobj list \<Rightarrow> pyobj list \<Rightarrow> series \<Rightarrow> series" where
  "spec_reduce ks keys s =
     (case s of
        Numeric xs \<Rightarrow> Numeric (map (\<lambda>k. sum_list (group_of k ks xs)) keys)
      | Float64 xs \<Rightarrow> Float64 (map (\<lambda>k. Some (sum_list (valid (group_of k ks xs)))) keys)
      | Object xs \<Rightarrow>
          Object (map (\<lambda>k. case filter (\<lambda>v. v \<noteq> PNull) (group_of k ks xs) of
                              [] \<Rightarrow> PNull
                            | v # rest \<Rightarrow> v) keys))"

text \<open>The spec's "first-seen value" of a group, read literally: the value of its first
  record.\<close>

definition spec_first_seen :: "pyobj list \<Rightarrow> pyobj" where
  "spec_first_seen vs = (case vs of [] \<Rightarrow> PNull | v # rest \<Rightarrow> v)"

text \<open>The spec's fallback for an empty retain-list: the distinct pairs of normalised
  postal code and grouping value of the cleaned records.\<close>

definition spec_distinct_pairs :: "series \<Rightarrow> series \<Rightarrow> (string \<times> pyobj) list" where
  "spec_distinct_pairs zs gs =
     unique (map (\<lambda>r. (normalize_zip (fst r), snd r))
       (filter (\<lambda>r. fst r \<noteq> PNull \<and> snd r \<noteq> PNull) (zip (cells zs) (cells gs))))"

text \<open>The sum of the values of an object attribute that holds strings and missing values
  only: its strings, concatenated in row order, and the integer 0 when it has none.\<close>

definition spec_concat :: "pyobj list \<Rightarrow> pyobj" where
  "spec_concat vs =
     (case concat (map (\<lambda>v. case v of PStr s \<Rightarrow> [s] | _ \<Rightarrow> []) vs) of
        [] \<Rightarrow> PInt 0
      | s # ss \<Rightarrow> PStr (concat (s # ss)))"

section \<open>Properties\<close>

subsection \<open>Lists, dictionaries, results\<close>

lemma take_mask_simps [simp]:
  "take_mask [] xs = []"
  "take_mask m [] = []"
  "take_mask (b # m) (x # xs) = (if b then x # take_mask m xs else take_mask m xs)"
  by (simp_all add: take_mask_def)

lemma take_mask_map: "take_mask m (map f xs) = map f (take_mask m xs)"
proof (induction m arbitrary: xs)
  case Nil
  then show ?case by simp
next
  case (Cons b m)
  then show ?case by (cases xs) simp_all
qed

lemma set_take_mask: "set (take_mask m xs) \<subseteq> set xs"
proof (induction m arbitrary: xs)
  case Nil
  then show ?case by simp
next
  case (Cons b m)
  then show ?case by (cases xs) auto
qed


lemma set_unique_from: "set (unique_from seen xs) = set xs - set seen"
  by (induction xs arbitrary: seen) auto

lemma distinct_unique_from: "distinct (unique_from seen xs)"
  by (induction xs arbitrary: seen) (auto simp: set_unique_from)

lemma set_unique [simp]: "set (unique xs) = set xs"
  by (simp add: unique_def set_unique_from)

lemma distinct_unique [simp]: "distinct (unique xs)"
  by (simp add: unique_def distinct_unique_from)

lemma length_unique: "length (unique xs) = card (set xs)"
  using distinct_card [OF distinct_unique, of xs] by simp

lemma unique_from_cong: "set seen = set seen' \<Longrightarrow> unique_from seen xs = unique_from seen' xs"
proof (induction xs arbitrary: seen seen')
  case Nil
  then show ?case by simp
next
  case (Cons x xs)
  from Cons.prems have "set (x # seen) = set (x # seen')" by simp
  from Cons.IH [OF this] Cons.IH [OF Cons.prems] Cons.prems show ?case by simp
qed

lemma unique_from_duplicated:
  "take_mask (map Not (duplicated_from seen xs)) xs = unique_from seen xs"
proof (induction xs arbitrary: seen)
  case Nil
  then show ?case by simp
next
  case (Cons x xs)
  show ?case
  proof (cases "x \<in> set seen")
    case True
    then have "set (x # seen) = set seen" by auto
    from unique_from_cong [OF this] Cons.IH [of "x # seen"] True show ?thesis by simp
  next
    case False
    with Cons.IH [of "x # seen"] show ?thesis by simp
  qed
qed

lemma duplicated_from_map:
  "inj f \<Longrightarrow> duplicated_from (map f seen) (map f xs) = duplicated_from seen xs"
proof (induction xs arbitrary: seen)
  case Nil
  then show ?case by simp
next
  case (Cons x xs)
  from Cons.IH [OF Cons.prems, of "x # seen"] Cons.prems
  show ?case by (auto simp: inj_image_mem_iff)
qed

lemma set_insort_by [simp]: "set (insort_by le x xs) = insert x (set xs)"
  by (induction xs) auto

lemma length_insort_by [simp]: "length (insort_by le x xs) = Suc (length xs)"
  by (induction xs) auto

lemma distinct_insort_by [simp]: "distinct (insort_by le x xs) = (x \<notin> set xs \<and> distinct xs)"
  by (induction xs) auto

lemma set_sort_by [simp]: "set (sort_by le xs) = set xs"
  by (induction xs) auto

lemma length_sort_by [simp]: "length (sort_by le xs) = length xs"
  by (induction xs) auto

lemma distinct_sort_by [simp]: "distinct (sort_by le xs) = distinct xs"
  by (induction xs) auto

lemma set_group_keys: "set (group_keys ks) = set ks - {PNull}"
  by (auto simp: group_keys_def)

lemma distinct_group_keys: "distinct (group_keys ks)"
  by (simp add: group_keys_def)

lemma length_group_keys: "length (group_keys ks) = card (set ks - {PNull})"
  using distinct_card [OF distinct_group_keys, of ks] by (simp add: set_group_keys)

lemma map_of_dict_set: "map_of (dict_set k v d) k' = (if k' = k then Some v else map_of d k')"
  by (induction d) auto

lemma dict_set_not_Nil [simp]: "dict_set k v d \<noteq> []"
  by (cases d) (auto split: if_splits)

lemma set_dict_set: "set (dict_set k v d) \<subseteq> insert (k, v) (set d)"
  by (induction d) (auto split: if_splits)

lemma fst_dict_set: "fst ` set (dict_set k v d) = insert k (fst ` set d)"
  by (induction d) (force split: if_splits)+

lemma labels_dict_set:
  "map_of d k \<noteq> None \<Longrightarrow> map fst (dict_set k v d) = map fst d"
  by (induction d) auto

lemma collect_Inr_D: "collect rs = Inr xs \<Longrightarrow> rs = map Inr xs"
proof (induction rs arbitrary: xs)
  case Nil
  then show ?case by simp
next
  case (Cons r rs)
  from Cons.prems obtain x where r: "r = Inr x"
    by (cases r) simp_all
  with Cons.prems obtain ys where ys: "collect rs = Inr ys"
    by (cases "collect rs") simp_all
  with r Cons.prems have "xs = x # ys" by simp
  with Cons.IH [OF ys] r show ?case by simp
qed

lemma collect_map_Inr [simp]: "collect (map Inr xs) = Inr xs"
  by (induction xs) simp_all


subsection \<open>Cleaning and aggregation\<close>

lemma map_of_frame_mask:
  "map_of (frame_mask m df) c = map_option (series_mask m) (map_of df c)"
  by (induction df) (auto simp: frame_mask_def)

lemma labels_frame_mask: "map fst (frame_mask m df) = map fst df"
  by (induction df) (auto simp: frame_mask_def)

lemma cells_series_mask: "cells (series_mask m s) = take_mask m (cells s)"
  by (cases s) (simp_all add: take_mask_map)

lemma take_mask_both:
  "take_mask (map2 (\<and>) (map P xs) (map Q ys)) xs
     = map fst (filter (\<lambda>r. P (fst r) \<and> Q (snd r)) (zip xs ys))"
proof (induction xs arbitrary: ys)
  case Nil
  then show ?case by simp
next
  case (Cons x xs)
  then show ?case by (cases ys) simp_all
qed

lemma cleaned_codes:
  "cells (normalize_series (series_mask (dropna_mask zs gs) zs))
     = map PStr (spec_surviving_codes zs gs)"
  by (simp add: normalize_series_def cells_series_mask dropna_mask_def notna_def
      take_mask_both spec_surviving_codes_def)

lemma transpose_pair: "transpose [xs, xs] = map (\<lambda>x. [x, x]) xs"
  by (induction xs) simp_all


lemma unique_from_map:
  "inj f \<Longrightarrow> unique_from (map f seen) (map f xs) = map f (unique_from seen xs)"
proof (induction xs arbitrary: seen)
  case Nil
  then show ?case by simp
next
  case (Cons x xs)
  from Cons.IH [OF Cons.prems, of "x # seen"] Cons.IH [OF Cons.prems, of seen] Cons.prems
  show ?case by (auto simp: inj_image_mem_iff)
qed

lemma unique_map: "inj f \<Longrightarrow> unique (map f xs) = map f (unique xs)"
  using unique_from_map [of f "[]" xs] by (simp add: unique_def)

lemma insort_by_map:
  "(\<And>a b. le' (f a) (f b) = le a b) \<Longrightarrow>
     insort_by le' (f x) (map f xs) = map f (insort_by le x xs)"
  by (induction xs) simp_all

lemma sort_by_map:
  "(\<And>a b. le' (f a) (f b) = le a b) \<Longrightarrow> sort_by le' (map f xs) = map f (sort_by le xs)"
  by (induction xs) (simp_all add: insort_by_map)

lemma group_keys_PStr: "group_keys (map PStr cs) = map PStr (sort_by str_le (unique cs))"
proof -
  have "filter (\<lambda>k. k \<noteq> PNull) (map PStr cs) = map PStr cs"
    by (induction cs) simp_all
  moreover have "inj PStr" by (simp add: inj_def)
  ultimately show ?thesis
    by (simp add: group_keys_def unique_map sort_by_map [where le = str_le])
qed

lemma clean_Inr:
  assumes "clean df z g = Inr dc"
  obtains zs gs where "map_of df z = Some zs" and "map_of df g = Some gs"
    and "dc = dict_set z (normalize_series (series_mask (dropna_mask zs gs) zs))
                (frame_mask (dropna_mask zs gs) df)"
  using assms by (auto simp: clean_def Let_def split: option.splits)

lemma clean_eq:
  assumes "map_of df z = Some zs" and "map_of df g = Some gs"
  shows "clean df z g = Inr (dict_set z (normalize_series (series_mask (dropna_mask zs gs) zs))
                (frame_mask (dropna_mask zs gs) df))"
  using assms by (simp add: clean_def Let_def)

lemma clean_key:
  assumes "clean df z g = Inr dc" and "map_of df z = Some zs" and "map_of df g = Some gs"
  shows "map_of dc z = Some (Object (map PStr (spec_surviving_codes zs gs)))"
proof -
  have "normalize_series (series_mask (dropna_mask zs gs) zs)
          = Object (map PStr (spec_surviving_codes zs gs))"
    using cleaned_codes [of zs gs] by (simp add: normalize_series_def)
  moreover from assms
  have "dc = dict_set z (normalize_series (series_mask (dropna_mask zs gs) zs))
                (frame_mask (dropna_mask zs gs) df)"
    by (simp add: clean_eq)
  ultimately show ?thesis by (simp add: map_of_dict_set)
qed

lemma clean_other:
  assumes "clean df z g = Inr dc" and "map_of df z = Some zs" and "map_of df g = Some gs"
    and "c \<noteq> z"
  shows "map_of dc c = map_option (series_mask (dropna_mask zs gs)) (map_of df c)"
proof -
  from assms
  have "dc = dict_set z (normalize_series (series_mask (dropna_mask zs gs) zs))
                (frame_mask (dropna_mask zs gs) df)"
    by (simp add: clean_eq)
  with \<open>c \<noteq> z\<close> show ?thesis by (simp add: map_of_dict_set map_of_frame_mask)
qed

lemma fold_dict_set_Nil:
  "fold (\<lambda>c d. dict_set c v d) cs d = [] \<Longrightarrow> cs = [] \<and> d = []"
proof (induction cs arbitrary: d)
  case Nil
  then show ?case by simp
next
  case (Cons c cs)
  from Cons.prems have "fold (\<lambda>c d. dict_set c v d) cs (dict_set c v d) = []" by simp
  from Cons.IH [OF this] show ?case by simp
qed

lemma first_dict_Nil: "first_dict cols z = [] \<Longrightarrow> set cols \<subseteq> {z}"
  by (auto simp: first_dict_def filter_empty_conv dest!: fold_dict_set_Nil)

lemma mark_numeric_Nil: "mark_numeric df cs d = Inr [] \<Longrightarrow> d = []"
proof (induction cs arbitrary: d)
  case Nil
  then show ?case by simp
next
  case (Cons c cs)
  from Cons.prems obtain s where s: "map_of df c = Some s"
    by (cases "map_of df c") simp_all
  show ?case
  proof (cases "is_numeric_dtype s")
    case True
    with Cons.prems s have "mark_numeric df cs (dict_set c Sum d) = Inr []" by simp
    from Cons.IH [OF this] show ?thesis by simp
  next
    case False
    with Cons.prems s have "mark_numeric df cs d = Inr []" by simp
    from Cons.IH [OF this] show ?thesis .
  qed
qed

lemma groupby_in_columns: "g \<in> set (columns_to_aggregate inc g)"
  by (simp add: columns_to_aggregate_def Let_def)

lemma groupby_agg_Inr:
  assumes "groupby_agg df by d = Inr out"
  shows "\<exists>bs cols. map_of df by = Some bs
    \<and> out = (by, series_like bs (group_keys (cells bs))) # cols
    \<and> map (agg_column df (cells bs) (group_keys (cells bs))) d = map Inr cols
    \<and> by \<notin> fst ` set cols"
  using assms unfolding groupby_agg_def
  by (auto simp: Let_def split: option.splits sum.splits if_splits dest: collect_Inr_D)

lemma aggregate_Inr:
  assumes "aggregate df z g (Some inc) = Inr zd"
  shows "\<exists>dc d. clean df z g = Inr dc
    \<and> mark_numeric dc (columns_to_aggregate inc g)
           (first_dict (columns_to_aggregate inc g) z) = Inr d
    \<and> (d \<noteq> [] \<longrightarrow> groupby_agg dc z d = Inr zd)
    \<and> (d = [] \<longrightarrow> (\<exists>sel. select_columns dc [z, g] = Inr sel \<and> zd = drop_duplicates sel))"
  using assms unfolding aggregate_def
  by (auto simp: Let_def split: option.splits sum.splits if_splits)

lemma drop_duplicates_pair:
  "drop_duplicates [(z, Object (map PStr cs)), (z, Object (map PStr cs))]
     = [(z, Object (map PStr (unique cs))), (z, Object (map PStr (unique cs)))]"
proof -
  have inj: "inj (\<lambda>x::pyobj. [x, x])" by (simp add: inj_def)
  have "duplicated_from [] (map (\<lambda>x. [x, x]) (map PStr cs)) = duplicated_from [] (map PStr cs)"
    using duplicated_from_map [OF inj, of "[]" "map PStr cs"] by simp
  then have "take_mask (map Not (duplicated_from [] (map (\<lambda>x. [x, x]) (map PStr cs)))) (map PStr cs)
               = unique (map PStr cs)"
    by (simp add: unique_from_duplicated unique_def)
  moreover have "unique (map PStr cs) = map PStr (unique cs)"
    by (rule unique_map) (simp add: inj_def)
  ultimately show ?thesis
    by (simp add: drop_duplicates_def rows_of_def transpose_pair frame_mask_def del: map_map)
qed

lemma aggregate_keys:
  assumes agg: "aggregate df z g (Some inc) = Inr zd"
  obtains zs gs keys where "map_of df z = Some zs" and "map_of df g = Some gs"
    and "map_of zd z = Some (Object (map PStr keys))" and "distinct keys"
    and "set keys = set (spec_surviving_codes zs gs)" and "nrows zd = length keys"
proof -
  from agg obtain dc d where dc: "clean df z g = Inr dc"
    and d: "mark_numeric dc (columns_to_aggregate inc g)
              (first_dict (columns_to_aggregate inc g) z) = Inr d"
    and grouped: "d \<noteq> [] \<Longrightarrow> groupby_agg dc z d = Inr zd"
    and pairs: "d = [] \<Longrightarrow> \<exists>sel. select_columns dc [z, g] = Inr sel \<and> zd = drop_duplicates sel"
    using aggregate_Inr [OF agg] by blast
  from dc obtain zs gs where zs: "map_of df z = Some zs" and gs: "map_of df g = Some gs"
    by (rule clean_Inr)
  let ?codes = "spec_surviving_codes zs gs"
  have key: "map_of dc z = Some (Object (map PStr ?codes))"
    by (rule clean_key [OF dc zs gs])
  show thesis
  proof (cases "d = []")
    case False
    from groupby_agg_Inr [OF grouped [OF False]] key obtain cols
      where "zd = (z, series_like (Object (map PStr ?codes))
                    (group_keys (cells (Object (map PStr ?codes))))) # cols"
      by auto
    then have "zd = (z, Object (map PStr (sort_by str_le (unique ?codes)))) # cols"
      by (simp add: group_keys_PStr)
    then show thesis
      using that [OF zs gs, of "sort_by str_le (unique ?codes)"] by (simp add: nrows_def)
  next
    case True
    with d have "first_dict (columns_to_aggregate inc g) z = []"
      by (auto dest: mark_numeric_Nil)
    from first_dict_Nil [OF this] groupby_in_columns [of g inc] have "g = z" by auto
    with pairs [OF True] key
    have "zd = drop_duplicates [(z, Object (map PStr ?codes)), (z, Object (map PStr ?codes))]"
      by (auto simp: select_columns_def)
    then have "zd = [(z, Object (map PStr (unique ?codes))), (z, Object (map PStr (unique ?codes)))]"
      by (simp only: drop_duplicates_pair)
    then show thesis
      using that [OF zs gs, of "unique ?codes"] by (simp add: nrows_def)
  qed
qed


lemma set_fold_dict_set:
  "set (fold (\<lambda>c d. dict_set c v d) cs d) \<subseteq> set d \<union> (\<lambda>c. (c, v)) ` set cs"
proof (induction cs arbitrary: d)
  case Nil
  then show ?case by simp
next
  case (Cons c cs)
  from Cons.IH [of "dict_set c v d"] set_dict_set [of c v d] show ?case by auto
qed

lemma first_dict_entries:
  "(c, f) \<in> set (first_dict cols z) \<Longrightarrow> f = First \<and> c \<in> set cols \<and> c \<noteq> z"
  using set_fold_dict_set [of First "filter (\<lambda>col. col \<noteq> z) cols" "[]"]
  by (auto simp: first_dict_def)

lemma mark_numeric_total:
  assumes "\<forall>c\<in>set cs. map_of df c \<noteq> None"
  shows "\<exists>d'. mark_numeric df cs d = Inr d' \<and>
           set d' \<subseteq> set d \<union> {(c, Sum) | c. c \<in> set cs \<and>
                                   (\<exists>s. map_of df c = Some s \<and> is_numeric_dtype s)}"
  using assms
proof (induction cs arbitrary: d)
  case Nil
  then show ?case by simp
next
  case (Cons c cs)
  from Cons.prems obtain s where s: "map_of df c = Some s" by auto
  from Cons.prems have rest: "\<forall>c\<in>set cs. map_of df c \<noteq> None" by simp
  show ?case
  proof (cases "is_numeric_dtype s")
    case True
    from Cons.IH [OF rest, of "dict_set c Sum d"] obtain d'
      where d': "mark_numeric df cs (dict_set c Sum d) = Inr d'"
        and sub: "set d' \<subseteq> set (dict_set c Sum d) \<union> {(c, Sum) | c. c \<in> set cs \<and>
                                   (\<exists>s. map_of df c = Some s \<and> is_numeric_dtype s)}"
      by blast
    from d' s True have "mark_numeric df (c # cs) d = Inr d'" by simp
    moreover from sub set_dict_set [of c Sum d] s True
    have "set d' \<subseteq> set d \<union> {(c', Sum) | c'. c' \<in> set (c # cs) \<and>
                                   (\<exists>s. map_of df c' = Some s \<and> is_numeric_dtype s)}"
      by auto
    ultimately show ?thesis by blast
  next
    case False
    from Cons.IH [OF rest, of d] obtain d'
      where d': "mark_numeric df cs d = Inr d'"
        and sub: "set d' \<subseteq> set d \<union> {(c, Sum) | c. c \<in> set cs \<and>
                                   (\<exists>s. map_of df c = Some s \<and> is_numeric_dtype s)}"
      by blast
    from d' s False have "mark_numeric df (c # cs) d = Inr d'" by simp
    moreover from sub
    have "set d' \<subseteq> set d \<union> {(c', Sum) | c'. c' \<in> set (c # cs) \<and>
                                   (\<exists>s. map_of df c' = Some s \<and> is_numeric_dtype s)}"
      by auto
    ultimately show ?thesis by blast
  qed
qed

lemma agg_series_total:
  "f = Sum \<longrightarrow> is_numeric_dtype s \<Longrightarrow> \<exists>r. agg_series f ks keys s = Inr r"
  by (cases f; cases s) (simp_all add: is_numeric_dtype_def)

lemma agg_columns_total:
  assumes "\<forall>(c, f)\<in>set d. \<exists>s. map_of df c = Some s \<and> (f = Sum \<longrightarrow> is_numeric_dtype s)"
  shows "\<exists>cols. map (agg_column df ks keys) d = map Inr cols \<and> map fst cols = map fst d"
  using assms
proof (induction d)
  case Nil
  then show ?case by simp
next
  case (Cons cf d)
  obtain c f where cf: "cf = (c, f)" by (cases cf)
  from Cons.prems cf obtain s where s: "map_of df c = Some s"
    and num: "f = Sum \<longrightarrow> is_numeric_dtype s" by auto
  from agg_series_total [OF num] obtain r where "agg_series f ks keys s = Inr r" by blast
  with s cf have here: "agg_column df ks keys cf = Inr (c, r)" by (simp add: agg_column_def)
  from Cons.prems have "\<forall>(c, f)\<in>set d. \<exists>s. map_of df c = Some s \<and> (f = Sum \<longrightarrow> is_numeric_dtype s)"
    by simp
  from Cons.IH [OF this] obtain cols
    where "map (agg_column df ks keys) d = map Inr cols" and "map fst cols = map fst d"
    by blast
  with here cf have "map (agg_column df ks keys) (cf # d) = map Inr ((c, r) # cols)
      \<and> map fst ((c, r) # cols) = map fst (cf # d)"
    by simp
  then show ?case by blast
qed


lemma set_columns_to_aggregate: "set (columns_to_aggregate inc g) \<subseteq> insert g (set inc)"
  by (auto simp: columns_to_aggregate_def Let_def)

lemma groupby_agg_total:
  assumes "map_of df by = Some bs"
    and "\<forall>(c, f)\<in>set d. \<exists>s. map_of df c = Some s \<and> (f = Sum \<longrightarrow> is_numeric_dtype s)"
    and "by \<notin> fst ` set d"
  shows "\<exists>out. groupby_agg df by d = Inr out"
proof -
  from agg_columns_total [OF assms(2), of "cells bs" "group_keys (cells bs)"] obtain cols
    where cols: "map (agg_column df (cells bs) (group_keys (cells bs))) d = map Inr cols"
      and fst: "map fst cols = map fst d"
    by blast
  from fst have "fst ` set cols = fst ` set d" by (metis set_map)
  with assms(3) have "by \<notin> set (map fst cols)" by simp
  with assms(1) cols show ?thesis by (simp add: groupby_agg_def Let_def)
qed

lemma aggregate_returns:
  assumes zs: "map_of df z = Some zs" and gs: "map_of df g = Some gs"
    and inc: "set inc \<subseteq> set (labels df)"
  shows "\<exists>zd. aggregate df z g (Some inc) = Inr zd"
proof -
  define dc where "dc = dict_set z (normalize_series (series_mask (dropna_mask zs gs) zs))
                (frame_mask (dropna_mask zs gs) df)"
  have dc: "clean df z g = Inr dc" by (simp add: dc_def clean_eq [OF zs gs])
  have key: "map_of dc z = Some (Object (map PStr (spec_surviving_codes zs gs)))"
    by (rule clean_key [OF dc zs gs])
  have present: "map_of dc c \<noteq> None" if "c \<in> set (labels df)" for c
  proof (cases "c = z")
    case True
    with key show ?thesis by simp
  next
    case False
    from that have "map_of df c \<noteq> None" by (simp add: labels_def map_of_eq_None_iff)
    with clean_other [OF dc zs gs False] show ?thesis by auto
  qed
  let ?cols = "columns_to_aggregate inc g"
  from gs have "g \<in> set (labels df)"
    by (auto simp: labels_def dest: map_of_SomeD intro: rev_image_eqI)
  with inc set_columns_to_aggregate [of inc g] have cols: "set ?cols \<subseteq> set (labels df)" by auto
  then have "\<forall>c\<in>set ?cols. map_of dc c \<noteq> None" using present by blast
  from mark_numeric_total [OF this, of "first_dict ?cols z"] obtain d
    where d: "mark_numeric dc ?cols (first_dict ?cols z) = Inr d"
      and sub: "set d \<subseteq> set (first_dict ?cols z) \<union> {(c, Sum) | c. c \<in> set ?cols \<and>
                                   (\<exists>s. map_of dc c = Some s \<and> is_numeric_dtype s)}"
    by blast
  have entry: "(\<exists>s. map_of dc c = Some s \<and> (f = Sum \<longrightarrow> is_numeric_dtype s)) \<and> c \<noteq> z"
    if "(c, f) \<in> set d" for c f
  proof -
    from that sub consider "(c, f) \<in> set (first_dict ?cols z)"
      | "f = Sum" "c \<in> set ?cols" "\<exists>s. map_of dc c = Some s \<and> is_numeric_dtype s"
      by auto
    then show ?thesis
    proof cases
      case 1
      from first_dict_entries [OF 1] have "f = First" "c \<in> set ?cols" "c \<noteq> z" by simp_all
      with cols present [of c] show ?thesis by auto
    next
      case 2
      with key show ?thesis by (auto simp: is_numeric_dtype_def)
    qed
  qed
  show ?thesis
  proof (cases "d = []")
    case False
    from entry have "\<forall>(c, f)\<in>set d. \<exists>s. map_of dc c = Some s \<and> (f = Sum \<longrightarrow> is_numeric_dtype s)"
      by blast
    moreover from entry have "z \<notin> fst ` set d" by force
    ultimately obtain out where "groupby_agg dc z d = Inr out"
      using groupby_agg_total [OF key] by blast
    with dc d False show ?thesis by (simp add: aggregate_def Let_def)
  next
    case True
    from present [OF \<open>g \<in> set (labels df)\<close>] obtain s where "map_of dc g = Some s" by auto
    with key have "\<exists>sel. select_columns dc [z, g] = Inr sel" by (simp add: select_columns_def)
    with dc d True show ?thesis by (auto simp: aggregate_def Let_def)
  qed
qed

subsection \<open>The aggregation dictionary and the aggregated columns\<close>

lemma map_of_fold_dict_set:
  "map_of (fold (\<lambda>c d. dict_set c v d) cs d) k = (if k \<in> set cs then Some v else map_of d k)"
  by (induction cs arbitrary: d) (auto simp: map_of_dict_set)

lemma map_of_first_dict:
  "map_of (first_dict cols z) c = (if c \<in> set cols \<and> c \<noteq> z then Some First else None)"
  by (simp add: first_dict_def map_of_fold_dict_set)

lemma map_of_mark_numeric:
  "mark_numeric df cs d = Inr d' \<Longrightarrow>
     map_of d' c = (if c \<in> set cs \<and> (\<exists>s. map_of df c = Some s \<and> is_numeric_dtype s)
                    then Some Sum else map_of d c)"
proof (induction cs arbitrary: d)
  case Nil
  then show ?case by simp
next
  case (Cons a cs)
  from Cons.prems obtain s where s: "map_of df a = Some s"
    by (cases "map_of df a") simp_all
  show ?case
  proof (cases "is_numeric_dtype s")
    case True
    with Cons.prems s have "mark_numeric df cs (dict_set a Sum d) = Inr d'" by simp
    from Cons.IH [OF this] s True show ?thesis by (auto simp: map_of_dict_set)
  next
    case False
    with Cons.prems s have "mark_numeric df cs d = Inr d'" by simp
    from Cons.IH [OF this] s False show ?thesis by auto
  qed
qed

lemma mark_numeric_present:
  "mark_numeric df cs d = Inr d' \<Longrightarrow> c \<in> set cs \<Longrightarrow> map_of df c \<noteq> None"
proof (induction cs arbitrary: d)
  case Nil
  then show ?case by simp
next
  case (Cons a cs)
  from Cons.prems(1) obtain s where s: "map_of df a = Some s"
    by (cases "map_of df a") simp_all
  with Cons.prems(1) have "\<exists>d0. mark_numeric df cs d0 = Inr d'"
    by (cases "is_numeric_dtype s") auto
  with Cons.IH Cons.prems(2) s show ?case by auto
qed

lemma agg_columns_lookup:
  "map (agg_column df ks keys) d = map Inr cols \<Longrightarrow> map_of d c = Some f \<Longrightarrow>
     \<exists>s r. map_of df c = Some s \<and> agg_series f ks keys s = Inr r \<and> map_of cols c = Some r"
proof (induction d arbitrary: cols)
  case Nil
  then show ?case by simp
next
  case (Cons cf d)
  obtain c0 f0 where cf: "cf = (c0, f0)" by (cases cf)
  from Cons.prems(1) obtain x cols' where cols: "cols = x # cols'"
    and x: "agg_column df ks keys cf = Inr x"
    and rest: "map (agg_column df ks keys) d = map Inr cols'"
    by (cases cols) auto
  from x cf obtain s0 r0 where s0: "map_of df c0 = Some s0"
    and r0: "agg_series f0 ks keys s0 = Inr r0" and x_eq: "x = (c0, r0)"
    by (auto simp: agg_column_def split: option.splits sum.splits)
  show ?case
  proof (cases "c = c0")
    case True
    with Cons.prems(2) cf have "f = f0" by simp
    with True s0 r0 x_eq cols show ?thesis by simp
  next
    case False
    with Cons.prems(2) cf have "map_of d c = Some f" by simp
    from Cons.IH [OF rest this] False x_eq cols show ?thesis by simp
  qed
qed

lemma agg_columns_labels:
  "map (agg_column df ks keys) d = map Inr cols \<Longrightarrow> map fst cols = map fst d"
proof (induction d arbitrary: cols)
  case Nil
  then show ?case by simp
next
  case (Cons cf d)
  from Cons.prems obtain x cols' where cols: "cols = x # cols'"
    and x: "agg_column df ks keys cf = Inr x"
    and rest: "map (agg_column df ks keys) d = map Inr cols'"
    by (cases cols) auto
  from x have "fst x = fst cf"
    by (auto simp: agg_column_def split: option.splits sum.splits)
  with Cons.IH [OF rest] cols show ?case by simp
qed

lemma agg_series_rule:
  "agg_series (if is_numeric_dtype s then Sum else First) ks keys s = Inr (spec_reduce ks keys s)"
  by (cases s) (simp_all add: is_numeric_dtype_def spec_reduce_def sum_numeric_def first_object_def)

lemma aggregate_column:
  assumes zs: "map_of df z = Some zs" and gs: "map_of df g = Some gs"
    and inc: "set inc \<subseteq> set (labels df)"
    and c: "c \<in> set (columns_to_aggregate inc g)" and cz: "c \<noteq> z"
  shows "\<exists>zip_data keys s. aggregate df z g (Some inc) = Inr zip_data
           \<and> map_of df c = Some s
           \<and> map_of zip_data z = Some (Object keys)
           \<and> map_of zip_data c =
               Some (spec_reduce (map PStr (spec_surviving_codes zs gs)) keys
                       (series_mask (dropna_mask zs gs) s))"
proof -
  let ?cols = "columns_to_aggregate inc g"
  let ?ks = "map PStr (spec_surviving_codes zs gs)"
  from aggregate_returns [OF zs gs inc] obtain zd where zd: "aggregate df z g (Some inc) = Inr zd"
    by blast
  from aggregate_Inr [OF zd] obtain dc d where dc: "clean df z g = Inr dc"
    and d: "mark_numeric dc ?cols (first_dict ?cols z) = Inr d"
    and grouped: "d \<noteq> [] \<Longrightarrow> groupby_agg dc z d = Inr zd"
    by blast
  have key: "map_of dc z = Some (Object ?ks)" by (rule clean_key [OF dc zs gs])
  from mark_numeric_present [OF d c] obtain s' where s': "map_of dc c = Some s'" by auto
  with clean_other [OF dc zs gs cz] obtain s where s: "map_of df c = Some s"
    and s'_eq: "s' = series_mask (dropna_mask zs gs) s"
    by (cases "map_of df c") auto
  have rule: "map_of d c = Some (if is_numeric_dtype s' then Sum else First)"
    using map_of_mark_numeric [OF d, of c] c cz s' by (simp add: map_of_first_dict)
  then have "d \<noteq> []" by auto
  from groupby_agg_Inr [OF grouped [OF this]] key obtain cols
    where shape: "zd = (z, Object (group_keys ?ks)) # cols"
      and cols: "map (agg_column dc ?ks (group_keys ?ks)) d = map Inr cols"
    by auto
  from agg_columns_lookup [OF cols rule] s'
  have "map_of cols c = Some (spec_reduce ?ks (group_keys ?ks) s')"
    by (auto simp: agg_series_rule)
  with shape cz s'_eq
  have "map_of zd z = Some (Object (group_keys ?ks))"
    and "map_of zd c = Some (spec_reduce ?ks (group_keys ?ks) (series_mask (dropna_mask zs gs) s))"
    by simp_all
  with zd s show ?thesis by blast
qed

lemma labels_drop_duplicates: "map fst (drop_duplicates df) = map fst df"
  by (simp add: drop_duplicates_def labels_frame_mask)

lemma aggregate_labels_empty:
  assumes zd: "aggregate df z g (Some []) = Inr zd"
  shows "labels zd = [z, g]"
proof -
  from aggregate_Inr [OF zd] obtain dc d where dc: "clean df z g = Inr dc"
    and d: "mark_numeric dc [g] (first_dict [g] z) = Inr d"
    and grouped: "d \<noteq> [] \<Longrightarrow> groupby_agg dc z d = Inr zd"
    and pairs: "d = [] \<Longrightarrow> \<exists>sel. select_columns dc [z, g] = Inr sel \<and> zd = drop_duplicates sel"
    by (auto simp: columns_to_aggregate_def)
  show ?thesis
  proof (cases "d = []")
    case True
    from pairs [OF True] obtain sel where "select_columns dc [z, g] = Inr sel"
      and "zd = drop_duplicates sel" by blast
    then show ?thesis
      by (auto simp: select_columns_def labels_drop_duplicates labels_def split: option.splits)
  next
    case False
    have "map fst d = [g]"
    proof (cases "g = z")
      case True
      from dc obtain zs gs where "map_of df z = Some zs" and "map_of df g = Some gs"
        by (rule clean_Inr)
      from clean_key [OF dc this] have "map_of dc z = Some (Object (map PStr (spec_surviving_codes zs gs)))" .
      with d True have "d = []"
        by (auto simp: first_dict_def is_numeric_dtype_def)
      with False show ?thesis by simp
    next
      case neq: False
      then have "first_dict [g] z = [(g, First)]" by (simp add: first_dict_def)
      with d have "mark_numeric dc [g] [(g, First)] = Inr d" by simp
      then show ?thesis by (auto split: option.splits if_splits)
    qed
    moreover from groupby_agg_Inr [OF grouped [OF False]] obtain bs cols
      where "zd = (z, series_like bs (group_keys (cells bs))) # cols"
        and "map (agg_column dc (cells bs) (group_keys (cells bs))) d = map Inr cols"
      by blast
    ultimately show ?thesis by (auto simp: labels_def dest: agg_columns_labels)
  qed
qed

subsection \<open>The left merge\<close>



lemma group_of_absent: "k \<notin> set ks \<Longrightarrow> group_of k ks vs = []"
  by (auto simp: group_of_def filter_empty_conv dest: set_zip_leftD)





lemma labels_rename_column:
  "map fst (rename_column old new df) = map (\<lambda>c. if c = old then new else c) (map fst df)"
  by (induction df) (auto simp: rename_column_def)

lemma count_list_rename:
  "old \<noteq> new \<Longrightarrow>
     count_list (map fst (rename_column old new df)) new
       = count_list (map fst df) old + count_list (map fst df) new"
  by (induction df) (auto simp: rename_column_def)

lemma rename_no_clash:
  assumes "map_of df old = Some s"
    and "count_list (map fst (rename_column old new df)) new = 1"
    and "old \<noteq> new"
  shows "new \<notin> set (map fst df)"
proof -
  from assms(1) have "old \<in> set (map fst df)"
    by (auto dest: map_of_SomeD intro: rev_image_eqI)
  then have "count_list (map fst df) old \<noteq> 0" by (simp add: count_list_0_iff)
  moreover from assms(2) count_list_rename [OF assms(3), of df]
  have "count_list (map fst df) old + count_list (map fst df) new = 1"
    by (rule box_equals [OF _ _ refl])
  ultimately have "count_list (map fst df) new = 0" by arith
  then show ?thesis by (simp add: count_list_0_iff)
qed

lemma rename_lookup:
  assumes "map_of df old = Some s"
    and "count_list (map fst (rename_column old new df)) new = 1"
  shows "map_of (rename_column old new df) new = Some s"
proof (cases "old = new")
  case True
  then have "rename_column old new df = df"
    by (induction df) (auto simp: rename_column_def)
  with assms(1) True show ?thesis by simp
next
  case False
  from rename_no_clash [OF assms False] have absent: "new \<notin> set (map fst df)" .
  from assms(1) absent show ?thesis
  proof (induction df)
    case Nil
    then show ?case by simp
  next
    case (Cons p df)
    then show ?case by (cases p) (auto simp: rename_column_def)
  qed
qed





subsection \<open>Sampling\<close>

lemma sampled_groups_sound:
  assumes "distinct gs"
    and "distinct (permutation (length gs))"
    and "set (permutation (length gs)) = {..<length gs}"
  shows "(length gs \<le> 5 \<longrightarrow> sampled_groups permutation gs = gs)
       \<and> (5 < length gs \<longrightarrow>
            length (sampled_groups permutation gs) = 5
          \<and> set (sampled_groups permutation gs) \<subseteq> set gs
          \<and> distinct (sampled_groups permutation gs))"
proof (intro conjI impI)
  assume "length gs \<le> 5"
  then show "sampled_groups permutation gs = gs" by (simp add: sampled_groups_def)
next
  let ?idx = "take 5 (permutation (length gs))"
  assume big: "5 < length gs"
  then have eq: "sampled_groups permutation gs = map (\<lambda>i. gs ! i) ?idx"
    by (simp add: sampled_groups_def random_choice_def)
  from assms(2,3) have "length (permutation (length gs)) = length gs"
    using distinct_card [of "permutation (length gs)"] by simp
  with big show "length (sampled_groups permutation gs) = 5" by (simp add: eq)
  have in_range: "set ?idx \<subseteq> {..<length gs}"
    using assms(3) set_take_subset [of 5 "permutation (length gs)"] by auto
  then show "set (sampled_groups permutation gs) \<subseteq> set gs" by (auto simp: eq)
  have "inj_on (\<lambda>i. gs ! i) {..<length gs}"
    using assms(1) by (auto simp: inj_on_def nth_eq_iff_index_eq)
  with in_range have "inj_on (\<lambda>i. gs ! i) (set ?idx)" by (rule inj_on_subset [rotated])
  moreover from assms(2) have "distinct ?idx" by simp
  ultimately show "distinct (sampled_groups permutation gs)" by (simp add: eq distinct_map)
qed

subsection \<open>The dissolve\<close>

lemma take_mask_filter: "take_mask (map P xs) xs = filter P xs"
  by (induction xs) simp_all

lemma group_of_masked:
  "k \<in> S \<Longrightarrow>
     group_of k (take_mask (map (\<lambda>v. v \<in> S) ks) ks) (take_mask (map (\<lambda>v. v \<in> S) ks) xs)
       = group_of k ks xs"
proof (induction ks arbitrary: xs)
  case Nil
  then show ?case by (simp add: group_of_def)
next
  case (Cons a ks)
  show ?case
  proof (cases xs)
    case Nil
    then show ?thesis by (simp add: group_of_def)
  next
    case (Cons x xs')
    with Cons.IH [OF Cons.prems, of xs'] Cons.prems show ?thesis
      by (auto simp: group_of_def)
  qed
qed

lemma sampled_groups_subset:
  assumes "distinct gs"
    and "distinct (permutation (length gs))"
    and "set (permutation (length gs)) = {..<length gs}"
  shows "set (sampled_groups permutation gs) \<subseteq> set gs"
    and "distinct (sampled_groups permutation gs)"
    and "gs \<noteq> [] \<Longrightarrow> sampled_groups permutation gs \<noteq> []"
proof -
  from sampled_groups_sound [of gs permutation, OF assms]
  have small: "length gs \<le> 5 \<Longrightarrow> sampled_groups permutation gs = gs"
    and big: "5 < length gs \<Longrightarrow> length (sampled_groups permutation gs) = 5
          \<and> set (sampled_groups permutation gs) \<subseteq> set gs
          \<and> distinct (sampled_groups permutation gs)"
    by blast+
  show "set (sampled_groups permutation gs) \<subseteq> set gs"
    using small big by (cases "length gs \<le> 5") auto
  show "distinct (sampled_groups permutation gs)"
    using small big assms(1) by (cases "length gs \<le> 5") auto
  show "sampled_groups permutation gs \<noteq> []" if "gs \<noteq> []"
  proof (cases "length gs \<le> 5")
    case True
    with small that show ?thesis by simp
  next
    case False
    with big have "length (sampled_groups permutation gs) = 5" by simp
    then show ?thesis by auto
  qed
qed

lemma series_like_mask: "series_like (series_mask m s) keys = series_like s keys"
  by (cases s) simp_all

lemma dissolve_Inr:
  assumes "dissolve union_all gdf by f = Inr v"
  shows "\<exists>bs cols. map_of (attrs gdf) by = Some bs
    \<and> map (\<lambda>p. case agg_series f (cells bs) (group_keys (cells bs)) (snd p) of
                   Inl e \<Rightarrow> Inl e | Inr r \<Rightarrow> Inr (fst p, r))
          (filter (\<lambda>p. fst p \<noteq> by) (attrs gdf)) = map Inr cols
    \<and> v = \<lparr>attrs = (by, series_like bs (group_keys (cells bs))) # cols,
            geometry = map (\<lambda>k. union_all (group_of k (cells bs) (geometry gdf)))
                         (group_keys (cells bs))\<rparr>"
  using assms unfolding dissolve_def
  by (auto simp: Let_def split: option.splits sum.splits dest: collect_Inr_D)

lemma agg_rows_member:
  assumes "map (\<lambda>p. case agg_series f ks keys (snd p) of
                   Inl e \<Rightarrow> Inl e | Inr r \<Rightarrow> Inr (fst p, r)) data = map Inr cols"
    and "(c, s) \<in> set data"
  shows "\<exists>r. agg_series f ks keys s = Inr r \<and> (c, r) \<in> set cols"
  using assms
proof (induction data arbitrary: cols)
  case Nil
  then show ?case by simp
next
  case (Cons p data)
  from Cons.prems(1) obtain x cols' where cols: "cols = x # cols'"
    and x: "(case agg_series f ks keys (snd p) of
                   Inl e \<Rightarrow> Inl e | Inr r \<Rightarrow> Inr (fst p, r)) = Inr x"
    and rest: "map (\<lambda>p. case agg_series f ks keys (snd p) of
                   Inl e \<Rightarrow> Inl e | Inr r \<Rightarrow> Inr (fst p, r)) data = map Inr cols'"
    by (cases cols) auto
  show ?case
  proof (cases "p = (c, s)")
    case True
    with x cols show ?thesis by (auto split: sum.splits)
  next
    case False
    with Cons.prems(2) have "(c, s) \<in> set data" by simp
    from Cons.IH [OF rest this] cols show ?thesis by auto
  qed
qed

subsection \<open>The shape of the aggregated table\<close>

lemma length_valid: "None \<notin> set ys \<Longrightarrow> length (valid ys) = length ys"
proof (induction ys)
  case Nil
  then show ?case by simp
next
  case (Cons y ys)
  then show ?case by (cases y) simp_all
qed

lemma length_cells_upcast: "length (cells (upcast ys)) = length ys"
  by (simp add: upcast_def length_valid)

lemma agg_series_length:
  "agg_series f ks keys s = Inr r \<Longrightarrow> length (cells r) = length keys"
proof (cases f; cases s)
  fix xs
  assume "agg_series f ks keys s = Inr r" and "f = Sum" and "s = Object xs"
  then obtain vs where "collect (map (\<lambda>k. sum_object (group_of k ks xs)) keys) = Inr vs"
    and "r = Object vs"
    by (auto split: sum.splits)
  with collect_Inr_D [of "map (\<lambda>k. sum_object (group_of k ks xs)) keys" vs]
  show "length (cells r) = length keys"
    by (auto dest: arg_cong [where f = length])
qed (auto simp: length_cells_upcast)

lemma agg_columns_length:
  "map (agg_column df ks keys) d = map Inr cols \<Longrightarrow> p \<in> set cols \<Longrightarrow>
     length (cells (snd p)) = length keys"
proof (induction d arbitrary: cols)
  case Nil
  then show ?case by simp
next
  case (Cons cf d)
  from Cons.prems(1) obtain x cols' where cols: "cols = x # cols'"
    and x: "agg_column df ks keys cf = Inr x"
    and rest: "map (agg_column df ks keys) d = map Inr cols'"
    by (cases cols) auto
  from x have "length (cells (snd x)) = length keys"
    by (auto simp: agg_column_def split: option.splits sum.splits dest: agg_series_length)
  with Cons.IH [OF rest] Cons.prems(2) cols show ?case by auto
qed

lemma aggregate_rectangular:
  assumes agg: "aggregate df z g (Some inc) = Inr zd"
    and key: "map_of zd z = Some (Object ks)"
    and p: "p \<in> set zd"
  shows "length (cells (snd p)) = length ks"
proof -
  from agg obtain dc d where dc: "clean df z g = Inr dc"
    and d: "mark_numeric dc (columns_to_aggregate inc g)
              (first_dict (columns_to_aggregate inc g) z) = Inr d"
    and grouped: "d \<noteq> [] \<Longrightarrow> groupby_agg dc z d = Inr zd"
    and pairs: "d = [] \<Longrightarrow> \<exists>sel. select_columns dc [z, g] = Inr sel \<and> zd = drop_duplicates sel"
    using aggregate_Inr [OF agg] by blast
  from dc obtain zs gs where zs: "map_of df z = Some zs" and gs: "map_of df g = Some gs"
    by (rule clean_Inr)
  let ?codes = "spec_surviving_codes zs gs"
  have dkey: "map_of dc z = Some (Object (map PStr ?codes))"
    by (rule clean_key [OF dc zs gs])
  show ?thesis
  proof (cases "d = []")
    case False
    from groupby_agg_Inr [OF grouped [OF False]] dkey obtain cols
      where shape: "zd = (z, Object (group_keys (map PStr ?codes))) # cols"
        and cols: "map (agg_column dc (map PStr ?codes) (group_keys (map PStr ?codes))) d
                     = map Inr cols"
      by auto
    from shape key have ks: "ks = group_keys (map PStr ?codes)" by simp
    from p shape consider "p = (z, Object ks)" | "p \<in> set cols" using ks by auto
    then show ?thesis
    proof cases
      case 1
      then show ?thesis by simp
    next
      case 2
      from agg_columns_length [OF cols 2] ks show ?thesis by simp
    qed
  next
    case True
    with d have "first_dict (columns_to_aggregate inc g) z = []"
      by (auto dest: mark_numeric_Nil)
    from first_dict_Nil [OF this] groupby_in_columns [of g inc] have "g = z" by auto
    with pairs [OF True] dkey
    have "zd = drop_duplicates [(z, Object (map PStr ?codes)), (z, Object (map PStr ?codes))]"
      by (auto simp: select_columns_def)
    then have "zd = [(z, Object (map PStr (unique ?codes))), (z, Object (map PStr (unique ?codes)))]"
      by (simp only: drop_duplicates_pair)
    with key p show ?thesis by auto
  qed
qed

subsection \<open>Postal-code normalisation\<close>

lemma length_zfill: "length (zfill w s) = max w (length s)"
  by (cases s) (auto simp: zfill_def)

lemma zfill_idem: "zfill w (zfill w s) = zfill w s"
proof -
  have "w \<le> length (zfill w s)" by (simp add: length_zfill)
  then show ?thesis by (simp add: zfill_def [of w "zfill w s"])
qed

text \<open>
  C4. Normalising an already normalised code returns it unchanged; \<^verbatim>\<open>"1"\<close> and
  \<^verbatim>\<open>"00001"\<close> normalise to the same value, so do \<^verbatim>\<open>"501"\<close> and \<^verbatim>\<open>"00501"\<close>, and
  two records with these codes are aggregated into one row.
\<close>

theorem normalize_zip_idempotent:
  "normalize_zip (PStr (normalize_zip v)) = normalize_zip v
   \<and> normalize_zip (PStr ''1'') = normalize_zip (PStr ''00001'')
   \<and> normalize_zip (PStr ''501'') = normalize_zip (PStr ''00501'')
   \<and> aggregate [(''zip'', Object [PStr ''501'', PStr ''00501'']),
                 (''state'', Object [PStr ''NY'', PStr ''NY''])] ''zip'' ''state'' (Some [])
       = Inr [(''zip'', Object [PStr ''00501'']), (''state'', Object [PStr ''NY''])]"
proof (intro conjI)
  show "normalize_zip (PStr (normalize_zip v)) = normalize_zip v"
    by (simp add: normalize_zip_def zfill_idem)
  show "normalize_zip (PStr ''1'') = normalize_zip (PStr ''00001'')"
    by code_simp
  show "normalize_zip (PStr ''501'') = normalize_zip (PStr ''00501'')"
    by code_simp
  show "aggregate [(''zip'', Object [PStr ''501'', PStr ''00501'']),
                 (''state'', Object [PStr ''NY'', PStr ''NY''])] ''zip'' ''state'' (Some [])
       = Inr [(''zip'', Object [PStr ''00501'']), (''state'', Object [PStr ''NY''])]"
    by code_simp
qed

theorem normalize_zip_idempotent_witness:
  "normalize_zip (PStr (normalize_zip (PInt 501))) = ''00501''"
proof -
  have "normalize_zip (PInt 501) = ''00501''" by code_simp
  with normalize_zip_idempotent [of "PInt 501"] show ?thesis by simp
qed

subsection \<open>The aggregated table\<close>

text \<open>
  C1. For a table that has the postal-code column, the grouping column and the retained
  columns, the aggregation returns a table with exactly one row per distinct normalised
  postal code of the records whose postal code and grouping value are both present: its
  key column lists these codes without repetition, and every one of its columns has as
  many entries as there are such codes.
\<close>

theorem aggregate_one_row_per_code:
  assumes "map_of df z = Some zs" and "map_of df g = Some gs"
    and "set inc \<subseteq> set (labels df)"
  shows "\<exists>zip_data keys. aggregate df z g (Some inc) = Inr zip_data
           \<and> map_of zip_data z = Some (Object (map PStr keys))
           \<and> distinct keys
           \<and> set keys = set (spec_surviving_codes zs gs)
           \<and> nrows zip_data = card (set (spec_surviving_codes zs gs))
           \<and> (\<forall>p\<in>set zip_data.
                 length (cells (snd p)) = card (set (spec_surviving_codes zs gs)))"
proof -
  from aggregate_returns [OF assms] obtain zd where zd: "aggregate df z g (Some inc) = Inr zd"
    by blast
  from aggregate_keys [OF zd] assms(1,2) obtain keys
    where key: "map_of zd z = Some (Object (map PStr keys))" and dist: "distinct keys"
      and set: "set keys = set (spec_surviving_codes zs gs)" and rows: "nrows zd = length keys"
    by (metis option.inject)
  from dist set have card: "length keys = card (set (spec_surviving_codes zs gs))"
    by (metis distinct_card)
  have "\<forall>p\<in>set zd. length (cells (snd p)) = card (set (spec_surviving_codes zs gs))"
    using aggregate_rectangular [OF zd key] card by simp
  with zd key dist set rows card show ?thesis by auto
qed

theorem aggregate_one_row_per_code_witness:
  "aggregate [(''zip'', Object [PStr ''501'', PStr ''00501'', PStr ''90210'', PStr ''00544'', PNull]),
              (''state'', Object [PStr ''NY'', PStr ''NY'', PStr ''CA'', PNull, PStr ''TX'']),
              (''pop'', Numeric [100, 50, 200, 7, 9])]
     ''zip'' ''state'' (Some [''pop''])
   = Inr [(''zip'', Object [PStr ''00501'', PStr ''90210'']),
          (''pop'', Numeric [150, 200]),
          (''state'', Object [PStr ''NY'', PStr ''CA''])]
   \<and> card (set (spec_surviving_codes
         (Object [PStr ''501'', PStr ''00501'', PStr ''90210'', PStr ''00544'', PNull])
         (Object [PStr ''NY'', PStr ''NY'', PStr ''CA'', PNull, PStr ''TX'']))) = 2"
proof -
  let ?zs = "Object [PStr ''501'', PStr ''00501'', PStr ''90210'', PStr ''00544'', PNull]"
  let ?gs = "Object [PStr ''NY'', PStr ''NY'', PStr ''CA'', PNull, PStr ''TX'']"
  let ?df = "[(''zip'', ?zs), (''state'', ?gs), (''pop'', Numeric [100, 50, 200, 7, 9])]"
  have run: "aggregate ?df ''zip'' ''state'' (Some [''pop''])
     = Inr [(''zip'', Object [PStr ''00501'', PStr ''90210'']),
          (''pop'', Numeric [150, 200]),
          (''state'', Object [PStr ''NY'', PStr ''CA''])]"
    by code_simp
  have "map_of ?df ''zip'' = Some ?zs" and "map_of ?df ''state'' = Some ?gs"
    and "set [''pop''] \<subseteq> set (labels ?df)"
    by (simp_all add: labels_def)
  from aggregate_one_row_per_code [OF this] run
  have "card (set (spec_surviving_codes ?zs ?gs)) = 2"
    by (auto simp: nrows_def)
  with run show ?thesis by simp
qed

text \<open>
  C2, as stated: a retained column that is not numeric reduces to the first-seen value of
  the group. \<^verbatim>\<open>GroupBy.first\<close> skips missing values: in a group whose first record has
  no name, the aggregated name is the one of the second record.
\<close>

theorem first_seen_counterexample:
  "aggregate [(''zip'', Object [PStr ''00501'', PStr ''501'']),
              (''state'', Object [PStr ''NY'', PStr ''NY'']),
              (''name'', Object [PNull, PStr ''B''])]
     ''zip'' ''state'' (Some [''name''])
   = Inr [(''zip'', Object [PStr ''00501'']),
          (''name'', Object [PStr ''B'']),
          (''state'', Object [PStr ''NY''])]
   \<and> spec_first_seen (group_of (PStr ''00501'') [PStr ''00501'', PStr ''00501'']
                        [PNull, PStr ''B'']) = PNull"
  by code_simp

text \<open>
  C2, amended. The rule is chosen per column, from the dtype of the column of the cleaned
  frame, before grouping: every retained column other than the postal-code column, the
  grouping column included, is reduced group by group, a numeric column by the sum of its
  values that are not missing, any other column by its first value that is not missing
  (missing when the group has none). On the rows \<^verbatim>\<open>{zip:"00501", x:3}\<close> and
  \<^verbatim>\<open>{zip:"501", x:4}\<close> the result is one row with \<^verbatim>\<open>x = 7\<close>.
\<close>

theorem aggregate_reduction_rule:
  assumes "map_of df z = Some zs" and "map_of df g = Some gs"
    and "set inc \<subseteq> set (labels df)"
    and "c \<in> set (columns_to_aggregate inc g)" and "c \<noteq> z"
  shows "\<exists>zip_data keys s. aggregate df z g (Some inc) = Inr zip_data
           \<and> map_of df c = Some s
           \<and> map_of zip_data z = Some (Object keys)
           \<and> map_of zip_data c =
               Some (spec_reduce (map PStr (spec_surviving_codes zs gs)) keys
                       (series_mask (dropna_mask zs gs) s))"
  using assms by (rule aggregate_column)

theorem aggregate_reduction_rule_witness:
  "aggregate [(''zip'', Object [PStr ''00501'', PStr ''501'']), (''x'', Numeric [3, 4])]
     ''zip'' ''x'' (Some [''x''])
   = Inr [(''zip'', Object [PStr ''00501'']), (''x'', Numeric [7])]
   \<and> spec_reduce (map PStr (spec_surviving_codes (Object [PStr ''00501'', PStr ''501''])
                                                 (Numeric [3, 4])))
         [PStr ''00501'']
         (series_mask (dropna_mask (Object [PStr ''00501'', PStr ''501'']) (Numeric [3, 4]))
            (Numeric [3, 4]))
       = Numeric [7]"
proof -
  let ?zs = "Object [PStr ''00501'', PStr ''501'']"
  let ?xs = "Numeric [3, 4]"
  let ?df = "[(''zip'', ?zs), (''x'', ?xs)]"
  have run: "aggregate ?df ''zip'' ''x'' (Some [''x''])
      = Inr [(''zip'', Object [PStr ''00501'']), (''x'', Numeric [7])]"
    by code_simp
  have "map_of ?df ''zip'' = Some ?zs" and "map_of ?df ''x'' = Some ?xs"
    and "set [''x''] \<subseteq> set (labels ?df)"
    and "''x'' \<in> set (columns_to_aggregate [''x''] ''x'')" and "''x'' \<noteq> ''zip''"
    by (simp_all add: labels_def columns_to_aggregate_def)
  from aggregate_reduction_rule [OF this] run
  have "spec_reduce (map PStr (spec_surviving_codes ?zs ?xs)) [PStr ''00501'']
          (series_mask (dropna_mask ?zs ?xs) ?xs) = Numeric [7]"
    by auto
  with run show ?thesis by simp
qed

text \<open>
  C5, as stated: with an empty retain-list the aggregator emits one row per distinct pair
  of postal code and grouping value. The grouping column is always aggregated (lines 50
  and 51), so two records of one code with different grouping values give one row.
\<close>

theorem empty_retain_list_counterexample:
  "aggregate [(''zip'', Object [PStr ''00501'', PStr ''501'']),
              (''state'', Object [PStr ''NY'', PStr ''NJ''])] ''zip'' ''state'' (Some [])
     = Inr [(''zip'', Object [PStr ''00501'']), (''state'', Object [PStr ''NY''])]
   \<and> spec_distinct_pairs (Object [PStr ''00501'', PStr ''501'']) (Object [PStr ''NY'', PStr ''NJ''])
     = [(''00501'', PStr ''NY''), (''00501'', PStr ''NJ'')]"
  by code_simp

text \<open>
  C5, amended. With an empty retain-list the aggregator returns one row per distinct
  normalised postal code, with two columns and no other attribute: the postal code and the
  grouping column, the latter reduced by the per-column rule when it is not the postal-code
  column itself.
\<close>

theorem empty_retain_list:
  assumes zs: "map_of df z = Some zs" and gs: "map_of df g = Some gs"
  shows "\<exists>zip_data keys. aggregate df z g (Some []) = Inr zip_data
           \<and> labels zip_data = [z, g]
           \<and> nrows zip_data = card (set (spec_surviving_codes zs gs))
           \<and> map_of zip_data z = Some (Object keys)
           \<and> (g \<noteq> z \<longrightarrow> map_of zip_data g =
                 Some (spec_reduce (map PStr (spec_surviving_codes zs gs)) keys
                         (series_mask (dropna_mask zs gs) gs)))"
proof (cases "g = z")
  case True
  have "set [] \<subseteq> set (labels df)" by simp
  from aggregate_returns [OF zs gs this] obtain zd where zd: "aggregate df z g (Some []) = Inr zd"
    by blast
  from aggregate_keys [OF zd] zs gs obtain keys
    where "map_of zd z = Some (Object (map PStr keys))" and "distinct keys"
      and "set keys = set (spec_surviving_codes zs gs)" and "nrows zd = length keys"
    by (metis option.inject)
  moreover from this have "nrows zd = card (set (spec_surviving_codes zs gs))"
    by (metis distinct_card)
  ultimately show ?thesis using zd True aggregate_labels_empty [OF zd] by blast
next
  case False
  have inc: "set [] \<subseteq> set (labels df)" by simp
  have "g \<in> set (columns_to_aggregate [] g)" by (rule groupby_in_columns)
  from aggregate_column [OF zs gs inc this False] gs obtain zd keys
    where zd: "aggregate df z g (Some []) = Inr zd"
      and key: "map_of zd z = Some (Object keys)"
      and red: "map_of zd g = Some (spec_reduce (map PStr (spec_surviving_codes zs gs)) keys
                         (series_mask (dropna_mask zs gs) gs))"
    by auto
  from aggregate_keys [OF zd] zs gs obtain keys'
    where "distinct keys'" and "set keys' = set (spec_surviving_codes zs gs)"
      and "nrows zd = length keys'"
    by (metis option.inject)
  then have "nrows zd = card (set (spec_surviving_codes zs gs))"
    by (metis distinct_card)
  with zd key red aggregate_labels_empty [OF zd] show ?thesis by blast
qed

theorem empty_retain_list_witness:
  "aggregate [(''zip'', Object [PStr ''00501'', PStr ''501'', PStr ''90210'']),
              (''state'', Object [PStr ''NY'', PStr ''NJ'', PStr ''CA''])] ''zip'' ''state'' (Some [])
     = Inr [(''zip'', Object [PStr ''00501'', PStr ''90210'']),
            (''state'', Object [PStr ''NY'', PStr ''CA''])]
   \<and> card (set (spec_surviving_codes (Object [PStr ''00501'', PStr ''501'', PStr ''90210''])
                                      (Object [PStr ''NY'', PStr ''NJ'', PStr ''CA'']))) = 2"
proof -
  let ?zs = "Object [PStr ''00501'', PStr ''501'', PStr ''90210'']"
  let ?gs = "Object [PStr ''NY'', PStr ''NJ'', PStr ''CA'']"
  let ?df = "[(''zip'', ?zs), (''state'', ?gs)]"
  have run: "aggregate ?df ''zip'' ''state'' (Some [])
     = Inr [(''zip'', Object [PStr ''00501'', PStr ''90210'']),
            (''state'', Object [PStr ''NY'', PStr ''CA''])]"
    by code_simp
  have "map_of ?df ''zip'' = Some ?zs" and "map_of ?df ''state'' = Some ?gs"
    by simp_all
  from empty_retain_list [OF this] run
  have "card (set (spec_surviving_codes ?zs ?gs)) = 2"
    by (auto simp: nrows_def)
  with run show ?thesis by simp
qed

subsection \<open>The default of \<^verbatim>\<open>include_columns\<close>\<close>

text \<open>
  C10. With \<^verbatim>\<open>include_columns = None\<close>, the default of the signature, the function never
  returns a table: when both columns exist, the comprehension of line 49 raises
  \<^verbatim>\<open>TypeError\<close>, before any aggregation and before the boundaries are asked for; when
  one is absent, line 42 has stopped the script already.
\<close>

theorem include_columns_None:
  "aggregate df z g None
     = Inl (if z \<in> set (labels df) \<and> g \<in> set (labels df) then TypeError else SchemaStop)
   \<and> create_full_geographic_data df z g None provider
     = Inl (if z \<in> set (labels df) \<and> g \<in> set (labels df) then TypeError else SchemaStop)"
proof -
  have "c \<in> set (labels df) \<longleftrightarrow> map_of df c \<noteq> None" for c
    by (simp add: labels_def map_of_eq_None_iff)
  then have "aggregate df z g None
     = Inl (if z \<in> set (labels df) \<and> g \<in> set (labels df) then TypeError else SchemaStop)"
    by (cases "map_of df z"; cases "map_of df g")
       (auto simp: aggregate_def clean_def Let_def)
  then show ?thesis by (simp add: create_full_geographic_data_def)
qed

theorem include_columns_None_witness:
  "create_full_geographic_data
     [(''zip'', Object [PStr ''00501'']), (''state'', Object [PStr ''NY''])]
     ''zip'' ''state'' None (None :: unit geoframe option) = Inl TypeError"
  using include_columns_None
    [of "[(''zip'', Object [PStr ''00501'']), (''state'', Object [PStr ''NY''])]"
        "''zip''" "''state''" "None :: unit geoframe option"]
  by (simp add: labels_def)

subsection \<open>Sampling and the downloads\<close>

text \<open>
  C7. For distinct grouping values and a generator that returns a permutation of the
  positions: at most 5 values are returned as they are; of more than 5, exactly 5 are
  returned, each one of the given values, none twice.
\<close>

theorem sampler_cap:
  assumes "distinct gs"
    and "distinct (permutation (length gs))"
    and "set (permutation (length gs)) = {..<length gs}"
  shows "(length gs \<le> 5 \<longrightarrow> sampled_groups permutation gs = gs)
       \<and> (5 < length gs \<longrightarrow>
            length (sampled_groups permutation gs) = 5
          \<and> set (sampled_groups permutation gs) \<subseteq> set gs
          \<and> distinct (sampled_groups permutation gs))"
  using assms by (rule sampled_groups_sound)

theorem sampler_cap_witness:
  "length (sampled_groups (\<lambda>n. rev [0..<n])
     [PStr ''A'', PStr ''B'', PStr ''C'', PStr ''D'', PStr ''E'', PStr ''F'', PStr ''G'', PStr ''H'']) = 5
   \<and> distinct (sampled_groups (\<lambda>n. rev [0..<n])
     [PStr ''A'', PStr ''B'', PStr ''C'', PStr ''D'', PStr ''E'', PStr ''F'', PStr ''G'', PStr ''H''])
   \<and> sampled_groups (\<lambda>n. rev [0..<n])
     [PStr ''A'', PStr ''B'', PStr ''C'', PStr ''D'', PStr ''E'', PStr ''F'', PStr ''G'', PStr ''H'']
     = [PStr ''H'', PStr ''G'', PStr ''F'', PStr ''E'', PStr ''D'']
   \<and> sampled_groups (\<lambda>n. rev [0..<n]) [PStr ''A'', PStr ''B'', PStr ''C'']
     = [PStr ''A'', PStr ''B'', PStr ''C'']"
proof -
  let ?p = "\<lambda>n. rev [0..<n]"
  let ?gs = "[PStr ''A'', PStr ''B'', PStr ''C'', PStr ''D'', PStr ''E'', PStr ''F'', PStr ''G'', PStr ''H'']"
  let ?hs = "[PStr ''A'', PStr ''B'', PStr ''C'']"
  have perm: "distinct (?p n)" "set (?p n) = {..<n}" for n
    by (simp_all add: atLeast0LessThan)
  have "distinct ?gs" by simp
  from sampler_cap [of ?gs ?p, OF this perm]
  have "length (sampled_groups ?p ?gs) = 5" and "distinct (sampled_groups ?p ?gs)"
    by simp_all
  moreover have "sampled_groups ?p ?gs = [PStr ''H'', PStr ''G'', PStr ''F'', PStr ''E'', PStr ''D'']"
    by code_simp
  moreover have "distinct ?hs" by simp
  from sampler_cap [of ?hs ?p, OF this perm] have "sampled_groups ?p ?hs = ?hs" by simp
  ultimately show ?thesis by blast
qed

text \<open>
  C8. The three downloads are built from the full table that
  \<^verbatim>\<open>create_full_geographic_data\<close> returns: they are the same whatever the generator
  draws and whatever the dissolve step does, and they are the serialisations of that table.
\<close>

theorem downloads_ignore_sampling:
  "downloads (generate to_json to_csv create_zip_file union_all permutation
                df zip_col groupby_col metric_cols provider)
     = downloads (generate to_json to_csv create_zip_file union_all' permutation'
                df zip_col groupby_col metric_cols provider)
   \<and> downloads (generate to_json to_csv create_zip_file union_all permutation
                df zip_col groupby_col metric_cols provider)
     = (case create_full_geographic_data df zip_col groupby_col (Some metric_cols) provider of
          Inl e \<Rightarrow> None
        | Inr final_gdf \<Rightarrow>
            if is_empty final_gdf then None
            else Some (to_json final_gdf, to_csv (attrs final_gdf), create_zip_file final_gdf))"
  by (simp add: generate_def Let_def split: sum.splits)

theorem downloads_ignore_sampling_witness:
  "downloads (generate (\<lambda>gdf. gdf) (\<lambda>df. df) (\<lambda>gdf. gdf) (\<lambda>gs. None) (\<lambda>n. rev [0..<n])
       [(''zip'', Object [PStr ''501'', PStr ''90210'']),
        (''state'', Object [PStr ''NY'', PStr ''CA''])]
       ''zip'' ''state'' []
       (Some \<lparr>attrs = [(''ZCTA5CE20'', Object [PStr ''90210''])], geometry = [Some (1::nat)]\<rparr>))
   = Some (\<lparr>attrs = [(''ZCTA5CE20'', Object [PStr ''00501'', PStr ''90210'']),
                       (''state'', Object [PStr ''NY'', PStr ''CA''])],
            geometry = [None, Some 1]\<rparr>,
           [(''ZCTA5CE20'', Object [PStr ''00501'', PStr ''90210'']),
            (''state'', Object [PStr ''NY'', PStr ''CA''])],
           \<lparr>attrs = [(''ZCTA5CE20'', Object [PStr ''00501'', PStr ''90210'']),
                       (''state'', Object [PStr ''NY'', PStr ''CA''])],
            geometry = [None, Some 1]\<rparr>)"
proof -
  let ?df = "[(''zip'', Object [PStr ''501'', PStr ''90210'']),
        (''state'', Object [PStr ''NY'', PStr ''CA''])]"
  let ?zcta = "\<lparr>attrs = [(''ZCTA5CE20'', Object [PStr ''90210''])], geometry = [Some (1::nat)]\<rparr>"
  have "create_full_geographic_data ?df ''zip'' ''state'' (Some []) (Some ?zcta)
     = Inr \<lparr>attrs = [(''ZCTA5CE20'', Object [PStr ''00501'', PStr ''90210'']),
                       (''state'', Object [PStr ''NY'', PStr ''CA''])],
            geometry = [None, Some 1]\<rparr>"
    by code_simp
  with downloads_ignore_sampling
    [of "\<lambda>gdf. gdf" "\<lambda>df. df" "\<lambda>gdf. gdf" "\<lambda>gs. None" "\<lambda>n. rev [0..<n]"
        ?df "''zip''" "''state''" "[]" "Some ?zcta"]
  show ?thesis by (simp add: is_empty_def)
qed

subsection \<open>The key column of the merged table\<close>

lemma suffix_x_not_key: "c @ ''_x'' \<noteq> ''ZCTA5CE20''"
proof
  assume "c @ ''_x'' = ''ZCTA5CE20''"
  then have "last (c @ ''_x'') = last ''ZCTA5CE20''" by (rule arg_cong)
  then show False by simp
qed

lemma map_of_relabel:
  assumes "\<And>p. p \<in> set left \<Longrightarrow> (lab p = K) = (fst p = K)"
  shows "map_of (map (\<lambda>p. (lab p, f (snd p))) left) K = map_option f (map_of left K)"
  using assms
proof (induction left)
  case Nil
  then show ?case by simp
next
  case (Cons p left)
  from Cons.prems have here: "(lab p = K) = (fst p = K)" by simp
  from Cons.prems have "\<And>q. q \<in> set left \<Longrightarrow> (lab q = K) = (fst q = K)" by simp
  from Cons.IH [OF this] here show ?case by (cases p) auto
qed

lemma merge_left_key:
  assumes "merge_left left right ''ZCTA5CE20'' = Inr final"
  shows "\<exists>ls rs. map_of left ''ZCTA5CE20'' = Some ls
           \<and> map_of (attrs right) ''ZCTA5CE20'' = Some rs
           \<and> count_list (labels left) ''ZCTA5CE20'' = 1
           \<and> map_of (attrs final) ''ZCTA5CE20'' = Some (left_series (cells ls) (cells rs) ls)"
proof -
  let ?K = "''ZCTA5CE20''"
  from assms obtain ls rs where ls: "map_of left ?K = Some ls"
    and rs: "map_of (attrs right) ?K = Some rs"
    and count: "count_list (labels left) ?K = 1"
    and final: "attrs final =
            map (\<lambda>p. (if fst p \<noteq> ?K
                          \<and> fst p \<in> set (labels (filter (\<lambda>p. fst p \<noteq> ?K) (attrs right)))
                       then fst p @ ''_x'' else fst p,
                       left_series (cells ls) (cells rs) (snd p))) left
            @ map (\<lambda>p. (if fst p \<in> set (labels left) then fst p @ ''_y'' else fst p,
                         right_series (cells ls) (cells rs) (snd p)))
                (filter (\<lambda>p. fst p \<noteq> ?K) (attrs right))"
    by (auto simp: merge_left_def Let_def split: option.splits if_splits)
  have "map_of (map (\<lambda>p. (if fst p \<noteq> ?K
                          \<and> fst p \<in> set (labels (filter (\<lambda>p. fst p \<noteq> ?K) (attrs right)))
                       then fst p @ ''_x'' else fst p,
                       left_series (cells ls) (cells rs) (snd p))) left) ?K
          = map_option (left_series (cells ls) (cells rs)) (map_of left ?K)"
    by (rule map_of_relabel) (use suffix_x_not_key in auto)
  with ls final have "map_of (attrs final) ?K = Some (left_series (cells ls) (cells rs) ls)"
    by (simp add: map_of_append)
  with ls rs count show ?thesis by blast
qed

lemma boundary_merge_key:
  assumes run: "boundary_merge zd z provider = Inr final"
    and zs: "map_of zd z = Some zs"
  shows "\<exists>rk. map_of (attrs final) ''ZCTA5CE20''
                 = Some (left_series (cells (astype_str zs)) rk (astype_str zs))"
proof -
  let ?K = "''ZCTA5CE20''"
  let ?left0 = "rename_column z ?K zd"
  from run zs obtain right ls where ls: "map_of ?left0 ?K = Some ls"
    and merged: "merge_left (dict_set ?K (astype_str ls) ?left0) right ?K = Inr final"
    by (auto simp: boundary_merge_def Let_def split: option.splits)
  from merge_left_key [OF merged] obtain ls' rs
    where ls': "map_of (dict_set ?K (astype_str ls) ?left0) ?K = Some ls'"
      and count: "count_list (labels (dict_set ?K (astype_str ls) ?left0)) ?K = 1"
      and key: "map_of (attrs final) ?K = Some (left_series (cells ls') (cells rs) ls')"
    by blast
  from ls have "map fst (dict_set ?K (astype_str ls) ?left0) = map fst ?left0"
    by (simp add: labels_dict_set)
  with count have "count_list (map fst ?left0) ?K = 1" by (simp add: labels_def)
  from rename_lookup [OF zs this] ls have "ls = zs" by simp
  with ls' have "ls' = astype_str zs" by (simp add: map_of_dict_set)
  with key show ?thesis by blast
qed

lemma left_rows_keys:
  "\<exists>ks. left_rows (map PStr keys) rk (map PStr keys) = map PStr ks \<and> set ks = set keys"
proof -
  let ?ks = "concat (map (\<lambda>k. replicate (nmatch (PStr k) rk) k) keys)"
  have "left_rows (map PStr keys) rk (map PStr keys) = map PStr ?ks"
    by (induction keys) (simp_all add: left_rows_def)
  moreover have "0 < nmatch k rk" for k by (simp add: nmatch_def)
  then have "set ?ks = set keys" by (auto simp: set_replicate_conv_if)
  ultimately show ?thesis by blast
qed

lemma astype_str_strings: "astype_str (Object (map PStr keys)) = Object (map PStr keys)"
  by (simp add: astype_str_def)

lemma final_key_column:
  assumes "boundary_merge zd z provider = Inr final"
    and "map_of zd z = Some (Object (map PStr keys))"
  shows "\<exists>ks. map_of (attrs final) ''ZCTA5CE20'' = Some (Object (map PStr ks)) \<and> set ks = set keys"
proof -
  from boundary_merge_key [OF assms] obtain rk
    where "map_of (attrs final) ''ZCTA5CE20''
             = Some (Object (left_rows (map PStr keys) rk (map PStr keys)))"
    by (auto simp: astype_str_strings)
  with left_rows_keys [of keys rk] show ?thesis by auto
qed

lemma length_normalize_zip: "length (normalize_zip v) = max 5 (length (str_obj v))"
  by (simp add: normalize_zip_def length_zfill)



subsection \<open>Sums of strings\<close>

lemma sum_from_strings: "sum_from (PStr a) (map PStr ss) = Inr (PStr (a @ concat ss))"
  by (induction ss arbitrary: a) simp_all

lemma strings_filter:
  "\<forall>v\<in>set vs. v = PNull \<or> (\<exists>s. v = PStr s) \<Longrightarrow>
     filter (\<lambda>v. v \<noteq> PNull) vs
       = map PStr (concat (map (\<lambda>v. case v of PStr s \<Rightarrow> [s] | _ \<Rightarrow> []) vs))"
  by (induction vs) auto

lemma sum_object_strings:
  assumes "\<forall>v\<in>set vs. v = PNull \<or> (\<exists>s. v = PStr s)"
  shows "sum_object vs = Inr (spec_concat vs)"
proof -
  define ss where "ss = concat (map (\<lambda>v. case v of PStr s \<Rightarrow> [s] | _ \<Rightarrow> []) vs)"
  from strings_filter [OF assms] have f: "filter (\<lambda>v. v \<noteq> PNull) vs = map PStr ss"
    by (simp only: ss_def)
  have c: "spec_concat vs = (case ss of [] \<Rightarrow> PInt 0 | s # rest \<Rightarrow> PStr (concat (s # rest)))"
    by (simp only: spec_concat_def ss_def)
  show ?thesis
    unfolding sum_object_def f c by (cases ss) (simp_all add: sum_from_strings)
qed

lemma set_group_of: "set (group_of k ks vs) \<subseteq> set vs"
  by (auto simp: group_of_def dest: set_zip_rightD)

lemma agg_sum_object_strings:
  assumes "\<forall>v\<in>set ys. v = PNull \<or> (\<exists>s. v = PStr s)"
  shows "agg_series Sum ks keys (Object ys)
           = Inr (Object (map (\<lambda>k. spec_concat (group_of k ks ys)) keys))"
proof -
  have "sum_object (group_of k ks ys) = Inr (spec_concat (group_of k ks ys))" for k
    by (rule sum_object_strings) (use assms set_group_of [of k ks ys] in blast)
  then have "map (\<lambda>k. sum_object (group_of k ks ys)) keys
               = map Inr (map (\<lambda>k. spec_concat (group_of k ks ys)) keys)"
    by simp
  then show ?thesis by (simp del: map_map)
qed

lemma agg_rows_total:
  assumes "\<forall>p\<in>set data. \<exists>r. F (snd p) = Inr r"
  shows "\<exists>cols. map (\<lambda>p. case F (snd p) of Inl e \<Rightarrow> Inl e | Inr r \<Rightarrow> Inr (fst p, r)) data
                   = map Inr cols \<and> map fst cols = map fst data"
  using assms
proof (induction data)
  case Nil
  then show ?case by simp
next
  case (Cons p data)
  from Cons.prems obtain r where r: "F (snd p) = Inr r" by auto
  from Cons.prems have "\<forall>p\<in>set data. \<exists>r. F (snd p) = Inr r" by simp
  from Cons.IH [OF this] obtain cols
    where "map (\<lambda>p. case F (snd p) of Inl e \<Rightarrow> Inl e | Inr r \<Rightarrow> Inr (fst p, r)) data
             = map Inr cols" and "map fst cols = map fst data"
    by blast
  with r have "map (\<lambda>p. case F (snd p) of Inl e \<Rightarrow> Inl e | Inr r \<Rightarrow> Inr (fst p, r)) (p # data)
             = map Inr ((fst p, r) # cols) \<and> map fst ((fst p, r) # cols) = map fst (p # data)"
    by simp
  then show ?case by blast
qed

lemma labels_filter: "map fst (filter (\<lambda>p. fst p \<noteq> g) xs) = filter (\<lambda>c. c \<noteq> g) (map fst xs)"
  by (induction xs) auto

subsection \<open>The geometry join\<close>




subsection \<open>The join key\<close>

text \<open>
  C9, as stated: every code used as the join key has exactly 5 characters, for input values
  of any length or numeric type. \<^verbatim>\<open>zfill(5)\<close> pads and never cuts: a ZIP+4 code keeps
  its 10 characters and is the key of its aggregated row. A numeric ZIP column that has a
  missing value is read as \<^verbatim>\<open>float64\<close>, and \<^verbatim>\<open>astype(str)\<close> writes its values with the
  decimal point: the keys of 501 and 1001 are \<^verbatim>\<open>"501.0"\<close> and \<^verbatim>\<open>"1001.0"\<close>.
\<close>

theorem join_key_length_counterexample:
  "length (normalize_zip (PStr ''12345-6789'')) \<noteq> 5
   \<and> aggregate [(''zip'', Object [PStr ''12345-6789'']), (''state'', Object [PStr ''PA''])]
        ''zip'' ''state'' (Some [])
     = Inr [(''zip'', Object [PStr ''12345-6789'']), (''state'', Object [PStr ''PA''])]
   \<and> aggregate [(''zip'', Float64 [Some 501, None, Some 1001]),
                 (''state'', Object [PStr ''NY'', PStr ''PA'', PStr ''MA''])]
        ''zip'' ''state'' (Some [])
     = Inr [(''zip'', Object [PStr ''1001.0'', PStr ''501.0'']),
            (''state'', Object [PStr ''MA'', PStr ''NY''])]"
proof (intro conjI)
  show "length (normalize_zip (PStr ''12345-6789'')) \<noteq> 5"
    by (simp add: normalize_zip_def zfill_def)
  show "aggregate [(''zip'', Object [PStr ''12345-6789'']), (''state'', Object [PStr ''PA''])]
        ''zip'' ''state'' (Some [])
     = Inr [(''zip'', Object [PStr ''12345-6789'']), (''state'', Object [PStr ''PA''])]"
    by code_simp
  show "aggregate [(''zip'', Float64 [Some 501, None, Some 1001]),
                 (''state'', Object [PStr ''NY'', PStr ''PA'', PStr ''MA''])]
        ''zip'' ''state'' (Some [])
     = Inr [(''zip'', Object [PStr ''1001.0'', PStr ''501.0'']),
            (''state'', Object [PStr ''MA'', PStr ''NY''])]"
    by code_simp
qed

text \<open>
  C9, amended. For a table that has the ZIP, grouping and retained columns, the aggregation
  step returns a table whose key column holds strings. Every key is the zero-padded string
  form of a ZIP value of the input that is not missing, and has as many characters as the
  longer of 5 and that string form: exactly 5 when the string form has at most 5. The
  padded string form of the ZIP value of every record that survives cleaning is a key. Two
  rows have the same key only if they are the same row, so two aggregated codes are equal
  iff their padded string forms are. The key column \<^verbatim>\<open>ZCTA5CE20\<close> of a merged table that
  lines 90 to 100 return holds these keys and no other.
\<close>

theorem join_key_is_padded_code:
  assumes zs: "map_of df z = Some zs" and gs: "map_of df g = Some gs"
    and inc: "set inc \<subseteq> set (labels df)"
  shows "\<exists>zip_data keys. aggregate df z g (Some inc) = Inr zip_data
      \<and> map_of zip_data z = Some (Object (map PStr keys))
      \<and> (\<forall>k\<in>set keys. \<exists>v\<in>set (cells zs). v \<noteq> PNull \<and> k = zfill 5 (str_obj v)
                             \<and> length k = max 5 (length (str_obj v)))
      \<and> (\<forall>r\<in>set (zip (cells zs) (cells gs)).
             fst r \<noteq> PNull \<and> snd r \<noteq> PNull \<longrightarrow> zfill 5 (str_obj (fst r)) \<in> set keys)
      \<and> (\<forall>i j. i < length keys \<and> j < length keys \<longrightarrow> (i = j \<longleftrightarrow> keys ! i = keys ! j))
      \<and> (\<forall>provider final_gdf.
             create_full_geographic_data df z g (Some inc) provider = Inr final_gdf \<longrightarrow>
             (\<exists>ks. map_of (attrs final_gdf) ''ZCTA5CE20'' = Some (Object (map PStr ks))
                  \<and> set ks = set keys))"
proof -
  from aggregate_returns [OF assms] obtain zd where zd: "aggregate df z g (Some inc) = Inr zd"
    by blast
  from aggregate_keys [OF zd] zs gs obtain keys
    where key: "map_of zd z = Some (Object (map PStr keys))" and dist: "distinct keys"
      and set: "set keys = set (spec_surviving_codes zs gs)"
    by (metis option.inject)
  have padded: "\<exists>v\<in>set (cells zs). v \<noteq> PNull \<and> k = zfill 5 (str_obj v)
                             \<and> length k = max 5 (length (str_obj v))"
    if "k \<in> set keys" for k
  proof -
    from that set obtain r where "r \<in> set (zip (cells zs) (cells gs))"
      and "fst r \<noteq> PNull" and "k = normalize_zip (fst r)"
      by (auto simp: spec_surviving_codes_def)
    moreover from this have "fst r \<in> set (cells zs)"
      using set_zip_leftD [of "fst r" "snd r" "cells zs" "cells gs"] by simp
    ultimately show ?thesis
      using length_normalize_zip [of "fst r"] by (auto simp: normalize_zip_def)
  qed
  have covered: "zfill 5 (str_obj (fst r)) \<in> set keys"
    if "r \<in> set (zip (cells zs) (cells gs))" and "fst r \<noteq> PNull" and "snd r \<noteq> PNull" for r
    using that set by (force simp: spec_surviving_codes_def normalize_zip_def)
  have index: "(i = j) = (keys ! i = keys ! j)" if "i < length keys" and "j < length keys" for i j
    using that dist by (simp add: nth_eq_iff_index_eq)
  have final: "\<exists>ks. map_of (attrs final_gdf) ''ZCTA5CE20'' = Some (Object (map PStr ks))
                  \<and> set ks = set keys"
    if "create_full_geographic_data df z g (Some inc) provider = Inr final_gdf"
    for provider :: "'g geoframe option" and final_gdf
  proof -
    from that zd have "boundary_merge zd z provider = Inr final_gdf"
      by (simp add: create_full_geographic_data_def)
    from final_key_column [OF this key] show ?thesis .
  qed
  from zd key padded covered index final show ?thesis by blast
qed

theorem join_key_is_padded_code_witness:
  "aggregate [(''zip'', Object [PStr ''501'', PStr ''12345-6789'', PNull, PStr ''00501'']),
              (''state'', Object [PStr ''NY'', PStr ''PA'', PStr ''CA'', PStr ''NY''])]
     ''zip'' ''state'' (Some [])
   = Inr [(''zip'', Object [PStr ''00501'', PStr ''12345-6789'']),
          (''state'', Object [PStr ''NY'', PStr ''PA''])]
   \<and> zfill 5 (str_obj (PStr ''501'')) \<in> set [''00501'', ''12345-6789'']
   \<and> create_full_geographic_data
        [(''zip'', Object [PStr ''501'', PStr ''12345-6789'', PNull, PStr ''00501'']),
         (''state'', Object [PStr ''NY'', PStr ''PA'', PStr ''CA'', PStr ''NY''])]
        ''zip'' ''state'' (Some [])
        (Some \<lparr>attrs = [(''ZCTA5CE20'', Object [PStr ''00501'', PStr ''00544''])],
               geometry = [Some (2::nat), Some 4]\<rparr>)
     = Inr \<lparr>attrs = [(''ZCTA5CE20'', Object [PStr ''00501'', PStr ''12345-6789'']),
                       (''state'', Object [PStr ''NY'', PStr ''PA''])],
            geometry = [Some 2, None]\<rparr>"
proof -
  let ?zs = "Object [PStr ''501'', PStr ''12345-6789'', PNull, PStr ''00501'']"
  let ?gs = "Object [PStr ''NY'', PStr ''PA'', PStr ''CA'', PStr ''NY'']"
  let ?df = "[(''zip'', ?zs), (''state'', ?gs)]"
  let ?zd = "[(''zip'', Object [PStr ''00501'', PStr ''12345-6789'']),
          (''state'', Object [PStr ''NY'', PStr ''PA''])]"
  have run: "aggregate ?df ''zip'' ''state'' (Some []) = Inr ?zd"
    by code_simp
  have merged: "create_full_geographic_data ?df ''zip'' ''state'' (Some [])
        (Some \<lparr>attrs = [(''ZCTA5CE20'', Object [PStr ''00501'', PStr ''00544''])],
               geometry = [Some (2::nat), Some 4]\<rparr>)
     = Inr \<lparr>attrs = [(''ZCTA5CE20'', Object [PStr ''00501'', PStr ''12345-6789'']),
                       (''state'', Object [PStr ''NY'', PStr ''PA''])],
            geometry = [Some 2, None]\<rparr>"
    by code_simp
  have "map_of ?df ''zip'' = Some ?zs" and "map_of ?df ''state'' = Some ?gs"
    and "set [] \<subseteq> set (labels ?df)"
    by simp_all
  from join_key_is_padded_code [OF this] obtain zip_data keys
    where "aggregate ?df ''zip'' ''state'' (Some []) = Inr zip_data"
      and "map_of zip_data ''zip'' = Some (Object (map PStr keys))"
      and covered: "\<forall>r\<in>set (zip (cells ?zs) (cells ?gs)).
             fst r \<noteq> PNull \<and> snd r \<noteq> PNull \<longrightarrow> zfill 5 (str_obj (fst r)) \<in> set keys"
    by blast
  with run have "map PStr keys = map PStr [''00501'', ''12345-6789'']" by simp
  then have keys: "keys = [''00501'', ''12345-6789'']"
    by (auto simp: map_eq_Cons_conv)
  have "(PStr ''501'', PStr ''NY'') \<in> set (zip (cells ?zs) (cells ?gs))" by simp
  with covered have "zfill 5 (str_obj (PStr ''501'')) \<in> set keys" by fastforce
  with keys run merged show ?thesis by simp
qed

subsection \<open>The dissolved sample\<close>

text \<open>
  C6, as stated: a non-numeric attribute of a dissolved row is a first-seen or
  representative value of its group. Line 211 passes \<^verbatim>\<open>aggfunc='sum'\<close>, which is applied
  to every attribute: the codes \<^verbatim>\<open>"00501"\<close> and \<^verbatim>\<open>"00544"\<close> of the two rows of a
  group come out as \<^verbatim>\<open>"0050100544"\<close>, which is no value of the group.
\<close>

theorem dissolve_first_value_counterexample:
  "create_full_geographic_data
     [(''zip'', Object [PStr ''501'', PStr ''00544'', PStr ''90210'']),
      (''state'', Object [PStr ''NY'', PStr ''NY'', PStr ''CA'']),
      (''pop'', Numeric [100, 50, 200])]
     ''zip'' ''state'' (Some [''pop''])
     (Some \<lparr>attrs = [(''ZCTA5CE20'', Object [PStr ''00501'', PStr ''00544'', PStr ''90210''])],
            geometry = [Some (2::nat), Some 4, Some 1]\<rparr>)
   = Inr \<lparr>attrs = [(''ZCTA5CE20'', Object [PStr ''00501'', PStr ''00544'', PStr ''90210'']),
                     (''pop'', Numeric [100, 50, 200]),
                     (''state'', Object [PStr ''NY'', PStr ''NY'', PStr ''CA''])],
          geometry = [Some 2, Some 4, Some 1]\<rparr>
   \<and> visualize (\<lambda>gs. Some (sum_list (valid gs))) (\<lambda>n. rev [0..<n])
     \<lparr>attrs = [(''ZCTA5CE20'', Object [PStr ''00501'', PStr ''00544'', PStr ''90210'']),
               (''pop'', Numeric [100, 50, 200]),
               (''state'', Object [PStr ''NY'', PStr ''NY'', PStr ''CA''])],
      geometry = [Some (2::nat), Some 4, Some 1]\<rparr> ''state''
   = Inr (Some \<lparr>attrs = [(''state'', Object [PStr ''CA'', PStr ''NY'']),
                         (''ZCTA5CE20'', Object [PStr ''90210'', PStr ''0050100544'']),
                         (''pop'', Numeric [200, 150])],
                geometry = [Some 1, Some 6]\<rparr>)
   \<and> spec_first_seen (group_of (PStr ''NY'') [PStr ''NY'', PStr ''NY'', PStr ''CA'']
                        [PStr ''00501'', PStr ''00544'', PStr ''90210'']) = PStr ''00501''"
  by code_simp

text \<open>
  C6, amended. The merged table has the grouping column, without a missing value in it;
  its object attributes hold strings and missing values only; the generator returns a
  permutation. Then line 211 returns a dissolved table, and lines 199 to 212 return it
  unless the sample is empty. The table has exactly one row per sampled grouping value. It
  has the grouping column and, in their order, the other attributes of the merged table.
  Each of these is reduced by \<^verbatim>\<open>'sum'\<close> over the rows of the merged table with that
  grouping value: an integer attribute is the sum of its values, a float attribute the sum
  of its values that are not missing, and an object attribute the concatenation, in row
  order, of its strings (0 when the group has none).
\<close>

theorem dissolve_sums_every_attribute:
  assumes gs: "map_of (attrs final_gdf) g = Some gs"
    and no_null: "PNull \<notin> set (cells gs)"
    and perm1: "distinct (permutation (length (unique (cells gs))))"
    and perm2: "set (permutation (length (unique (cells gs)))) = {..<length (unique (cells gs))}"
    and sample: "sampled = sampled_groups permutation (unique (cells gs))"
    and strings: "\<forall>c xs v. (c, Object xs) \<in> set (attrs final_gdf) \<and> c \<noteq> g \<and> v \<in> set xs
                    \<longrightarrow> v = PNull \<or> (\<exists>s. v = PStr s)"
  shows "\<exists>visual_gdf keys.
        dissolve union_all (geoframe_mask (isin gs sampled) final_gdf) g Sum = Inr visual_gdf
      \<and> visualize union_all permutation final_gdf g =
          (if is_empty (geoframe_mask (isin gs sampled) final_gdf) then Inr None
           else Inr (Some visual_gdf))
      \<and> distinct keys
      \<and> set keys = set sampled
      \<and> length (geometry visual_gdf) = length sampled
      \<and> map_of (attrs visual_gdf) g = Some (series_like gs keys)
      \<and> labels (attrs visual_gdf) = g # filter (\<lambda>c. c \<noteq> g) (labels (attrs final_gdf))
      \<and> (\<forall>c xs. (c, Numeric xs) \<in> set (attrs final_gdf) \<and> c \<noteq> g \<longrightarrow>
            (c, Numeric (map (\<lambda>k. sum_list (group_of k (cells gs) xs)) keys))
              \<in> set (attrs visual_gdf))
      \<and> (\<forall>c xs. (c, Float64 xs) \<in> set (attrs final_gdf) \<and> c \<noteq> g \<longrightarrow>
            (c, Float64 (map (\<lambda>k. Some (sum_list (valid (group_of k (cells gs) xs)))) keys))
              \<in> set (attrs visual_gdf))
      \<and> (\<forall>c xs. (c, Object xs) \<in> set (attrs final_gdf) \<and> c \<noteq> g \<longrightarrow>
            (c, Object (map (\<lambda>k. spec_concat (group_of k (cells gs) xs)) keys))
              \<in> set (attrs visual_gdf))"
proof -
  define m where "m = map (\<lambda>v. v \<in> set sampled) (cells gs)"
  define ks' where "ks' = take_mask m (cells gs)"
  define keys where "keys = group_keys ks'"
  define data where "data = filter (\<lambda>p. fst p \<noteq> g) (frame_mask m (attrs final_gdf))"
  have S_sub: "set sampled \<subseteq> set (cells gs)" and S_dist: "distinct sampled"
    using sampled_groups_subset(1,2) [of "unique (cells gs)" permutation, OF _ perm1 perm2]
    by (simp_all add: sample)
  have isin: "isin gs sampled = m" by (simp add: isin_def m_def)
  have masked_strings: "\<forall>v\<in>set (take_mask m xs). v = PNull \<or> (\<exists>s. v = PStr s)"
    if "(c, Object xs) \<in> set (attrs final_gdf)" and "c \<noteq> g" for c xs
    using that strings set_take_mask [of m xs] by blast
  have "\<exists>r. agg_series Sum ks' keys (snd p) = Inr r" if "p \<in> set data" for p
  proof -
    from that obtain c s where p: "p = (c, series_mask m s)"
      and mem: "(c, s) \<in> set (attrs final_gdf)" and c: "c \<noteq> g"
      by (auto simp: data_def frame_mask_def)
    show ?thesis
    proof (cases s)
      case (Object xs)
      with masked_strings [of c xs] mem c
      have "agg_series Sum ks' keys (Object (take_mask m xs))
          = Inr (Object (map (\<lambda>k. spec_concat (group_of k ks' (take_mask m xs))) keys))"
        by (intro agg_sum_object_strings) blast
      with p Object show ?thesis by (simp del: agg_series.simps)
    qed (simp_all add: p)
  qed
  then have "\<forall>p\<in>set data. \<exists>r. agg_series Sum ks' keys (snd p) = Inr r" by blast
  from agg_rows_total [OF this] obtain cols
    where cols: "map (\<lambda>p. case agg_series Sum ks' keys (snd p) of
                   Inl e \<Rightarrow> Inl e | Inr r \<Rightarrow> Inr (fst p, r)) data = map Inr cols"
      and cols_labels: "map fst cols = map fst data"
    by blast
  define visual where "visual = \<lparr>attrs = (g, series_like gs keys) # cols,
      geometry = map (\<lambda>k. union_all (group_of k ks' (take_mask m (geometry final_gdf)))) keys\<rparr>"
  have run: "dissolve union_all (geoframe_mask m final_gdf) g Sum = Inr visual"
    using gs cols
    by (simp add: dissolve_def Let_def geoframe_mask_def map_of_frame_mask cells_series_mask
        series_like_mask ks'_def [symmetric] keys_def [symmetric] data_def [symmetric] visual_def)
  then have vis: "visualize union_all permutation final_gdf g =
          (if is_empty (geoframe_mask m final_gdf) then Inr None else Inr (Some visual))"
    using gs by (simp add: visualize_def Let_def isin sample [symmetric])
  have "ks' = filter (\<lambda>v. v \<in> set sampled) (cells gs)"
    by (simp add: ks'_def m_def take_mask_filter)
  with S_sub no_null have set_keys: "set keys = set sampled"
    by (auto simp: keys_def set_group_keys)
  have dist_keys: "distinct keys" by (simp add: keys_def distinct_group_keys)
  from set_keys dist_keys S_dist have "length keys = length sampled"
    by (metis distinct_card)
  then have rows: "length (geometry visual) = length sampled" by (simp add: visual_def)
  have by_col: "map_of (attrs visual) g = Some (series_like gs keys)" by (simp add: visual_def)
  have labs: "labels (attrs visual) = g # filter (\<lambda>c. c \<noteq> g) (labels (attrs final_gdf))"
    by (simp add: visual_def labels_def cols_labels data_def labels_filter labels_frame_mask)
  have groups: "group_of k ks' (take_mask m xs) = group_of k (cells gs) xs"
    if "k \<in> set keys" for k and xs :: "'x list"
    using that set_keys by (simp add: ks'_def m_def group_of_masked)
  have numeric: "(c, Numeric (map (\<lambda>k. sum_list (group_of k (cells gs) xs)) keys))
              \<in> set (attrs visual)"
    if "(c, Numeric xs) \<in> set (attrs final_gdf)" and "c \<noteq> g" for c xs
  proof -
    from that have "(c, Numeric (take_mask m xs)) \<in> set data"
      by (force simp: data_def frame_mask_def)
    from agg_rows_member [OF cols this]
    have "(c, Numeric (map (\<lambda>k. sum_list (group_of k ks' (take_mask m xs))) keys)) \<in> set cols"
      by auto
    moreover have "map (\<lambda>k. sum_list (group_of k ks' (take_mask m xs))) keys
        = map (\<lambda>k. sum_list (group_of k (cells gs) xs)) keys"
      by (rule map_cong) (simp_all add: groups)
    ultimately show ?thesis by (simp add: visual_def)
  qed
  have float: "(c, Float64 (map (\<lambda>k. Some (sum_list (valid (group_of k (cells gs) xs)))) keys))
              \<in> set (attrs visual)"
    if "(c, Float64 xs) \<in> set (attrs final_gdf)" and "c \<noteq> g" for c xs
  proof -
    from that have "(c, Float64 (take_mask m xs)) \<in> set data"
      by (force simp: data_def frame_mask_def)
    from agg_rows_member [OF cols this]
    have "(c, Float64 (map (\<lambda>k. sum_numeric (group_of k ks' (take_mask m xs))) keys)) \<in> set cols"
      by auto
    moreover have "map (\<lambda>k. sum_numeric (group_of k ks' (take_mask m xs))) keys
        = map (\<lambda>k. Some (sum_list (valid (group_of k (cells gs) xs)))) keys"
      by (rule map_cong) (simp_all add: groups sum_numeric_def)
    ultimately show ?thesis by (simp add: visual_def)
  qed
  have object: "(c, Object (map (\<lambda>k. spec_concat (group_of k (cells gs) xs)) keys))
              \<in> set (attrs visual)"
    if "(c, Object xs) \<in> set (attrs final_gdf)" and "c \<noteq> g" for c xs
  proof -
    from that have "(c, Object (take_mask m xs)) \<in> set data"
      by (force simp: data_def frame_mask_def)
    have "agg_series Sum ks' keys (Object (take_mask m xs))
          = Inr (Object (map (\<lambda>k. spec_concat (group_of k ks' (take_mask m xs))) keys))"
      using masked_strings [OF that] by (intro agg_sum_object_strings) blast
    with agg_rows_member [OF cols \<open>(c, Object (take_mask m xs)) \<in> set data\<close>]
    have "(c, Object (map (\<lambda>k. spec_concat (group_of k ks' (take_mask m xs))) keys)) \<in> set cols"
      by (auto simp del: agg_series.simps)
    moreover have "map (\<lambda>k. spec_concat (group_of k ks' (take_mask m xs))) keys
        = map (\<lambda>k. spec_concat (group_of k (cells gs) xs)) keys"
      by (rule map_cong) (simp_all add: groups)
    ultimately show ?thesis by (simp add: visual_def)
  qed
  from run vis dist_keys set_keys rows by_col labs numeric float object show ?thesis
    unfolding isin by blast
qed

theorem dissolve_sums_every_attribute_witness:
  "visualize (\<lambda>gs. Some (sum_list (valid gs))) (\<lambda>n. rev [0..<n])
     \<lparr>attrs = [(''ZCTA5CE20'', Object [PStr ''00501'', PStr ''00544'', PStr ''90210'']),
               (''pop'', Numeric [100, 50, 200]),
               (''area'', Float64 [Some 6, None, Some 5]),
               (''note'', Object [PNull, PStr ''a'', PNull]),
               (''state'', Object [PStr ''NY'', PStr ''NY'', PStr ''CA''])],
      geometry = [Some (2::nat), Some 4, Some 1]\<rparr> ''state''
   = Inr (Some \<lparr>attrs = [(''state'', Object [PStr ''CA'', PStr ''NY'']),
                         (''ZCTA5CE20'', Object [PStr ''90210'', PStr ''0050100544'']),
                         (''pop'', Numeric [200, 150]),
                         (''area'', Float64 [Some 5, Some 6]),
                         (''note'', Object [PInt 0, PStr ''a''])],
                geometry = [Some 1, Some 6]\<rparr>)
   \<and> length (sampled_groups (\<lambda>n. rev [0..<n])
               (unique (cells (Object [PStr ''NY'', PStr ''NY'', PStr ''CA''])))) = 2"
proof -
  let ?u = "\<lambda>gs :: nat option list. Some (sum_list (valid gs))"
  let ?p = "\<lambda>n. rev [0..<n]"
  let ?gs = "Object [PStr ''NY'', PStr ''NY'', PStr ''CA'']"
  let ?final = "\<lparr>attrs = [(''ZCTA5CE20'', Object [PStr ''00501'', PStr ''00544'', PStr ''90210'']),
               (''pop'', Numeric [100, 50, 200]),
               (''area'', Float64 [Some 6, None, Some 5]),
               (''note'', Object [PNull, PStr ''a'', PNull]),
               (''state'', ?gs)],
      geometry = [Some (2::nat), Some 4, Some 1]\<rparr>"
  let ?visual = "\<lparr>attrs = [(''state'', Object [PStr ''CA'', PStr ''NY'']),
                         (''ZCTA5CE20'', Object [PStr ''90210'', PStr ''0050100544'']),
                         (''pop'', Numeric [200, 150]),
                         (''area'', Float64 [Some 5, Some 6]),
                         (''note'', Object [PInt 0, PStr ''a''])],
                geometry = [Some (1::nat), Some 6]\<rparr>"
  let ?sampled = "sampled_groups ?p (unique (cells ?gs))"
  have run: "dissolve ?u (geoframe_mask (isin ?gs ?sampled) ?final) ''state'' Sum = Inr ?visual"
    by code_simp
  have rows: "\<not> is_empty (geoframe_mask (isin ?gs ?sampled) ?final)"
    by code_simp
  have perm: "distinct (?p n)" "set (?p n) = {..<n}" for n
    by (simp_all add: atLeast0LessThan)
  have col: "map_of (attrs ?final) ''state'' = Some ?gs" and full: "PNull \<notin> set (cells ?gs)"
    by simp_all
  have strings: "\<forall>c xs v. (c, Object xs) \<in> set (attrs ?final) \<and> c \<noteq> ''state'' \<and> v \<in> set xs
                    \<longrightarrow> v = PNull \<or> (\<exists>s. v = PStr s)"
    by auto
  from dissolve_sums_every_attribute
    [of ?final "''state''" ?gs ?p ?sampled ?u, OF col full perm refl strings]
  obtain visual_gdf where
    "dissolve ?u (geoframe_mask (isin ?gs ?sampled) ?final) ''state'' Sum = Inr visual_gdf"
    and vis: "visualize ?u ?p ?final ''state'' =
          (if is_empty (geoframe_mask (isin ?gs ?sampled) ?final) then Inr None
           else Inr (Some visual_gdf))"
    and len: "length (geometry visual_gdf) = length ?sampled"
    by blast
  with run have v: "visual_gdf = ?visual" by simp
  from vis rows have "visualize ?u ?p ?final ''state'' = Inr (Some ?visual)"
    unfolding v by simp
  moreover from len have "length ?sampled = 2" unfolding v by simp
  ultimately show ?thesis by blast
qed

end
